theory Spec2Isabelle
  imports Main "HOL-Library.Word"
begin

section \<open>Epochs, transaction ids and error codes\<close>

text \<open>
  The commit core of FOEDUS: \<open>XctManagerPimpl\<close> (xct_manager_pimpl.cpp) and the
  partitioner registry of \<open>LogGleaner\<close> (log_gleaner_impl.cpp). The classes
  \<open>Epoch\<close>, \<open>XctId\<close>, \<open>Xct\<close>, \<open>ThreadLogBuffer\<close> and the MCS lock
  are used by that code but declared elsewhere; they are modelled from the specification
  and every such definition says so.
\<close>

type_synonym epoch = "32 word"
type_synonym addr = nat
type_synonym storage_id = nat

datatype error_code =
    kErrorCodeOk
  | kErrorCodeXctAlreadyRunning
  | kErrorCodeXctNoXct
  | kErrorCodeXctRaceAbort
  | kErrorCodeTimeout

text \<open>
  Modelled from the spec: class \<open>Epoch\<close> (epoch.hpp is not among the sources).
  An epoch is a 32-bit integer, 0 is the sentinel "invalid".
\<close>

definition kEpochInvalid :: epoch where
  "kEpochInvalid = 0"

definition epoch_is_valid :: "epoch \<Rightarrow> bool" where
  "epoch_is_valid e = (e \<noteq> kEpochInvalid)"

text \<open>
  Modelled from the spec: the cyclic comparison, \<open>a.before(b)\<close> iff
  \<open>(b - a) mod 2^32\<close> lies strictly between 0 and \<open>2^31\<close>. The operator
  \<open><\<close> of \<open>Epoch\<close> used by \<open>wait_for_commit\<close> is this comparison.
\<close>

definition epoch_before :: "epoch \<Rightarrow> epoch \<Rightarrow> bool" where
  "epoch_before a b = (b - a \<noteq> 0 \<and> b - a < 2 ^ 31)"

text \<open>
  Modelled from the spec: \<open>Epoch::store_max(other)\<close> keeps the later of the two epochs.
  An invalid epoch is replaced by the other one: \<open>precommit_xct_verify_readonly\<close> starts
  from \<open>Epoch()\<close> and expects a valid value after observing a read set.
\<close>

definition epoch_store_max :: "epoch \<Rightarrow> epoch \<Rightarrow> epoch" where
  "epoch_store_max this other =
     (if \<not> epoch_is_valid this \<or> epoch_before this other then other else this)"

text \<open>
  Modelled from the spec: \<open>XctId\<close>, the epoch and in-epoch ordinal of the last committer
  plus status bits. The key lock itself is the separate \<open>lock_\<close> word of the owner id
  in the code under study, so it is not a field here.
\<close>

record xct_id =
  xid_epoch :: epoch
  xid_ordinal :: nat
  xid_being_written :: bool
  xid_deleted :: bool
  xid_moved :: bool

definition xct_id_set :: "epoch \<Rightarrow> nat \<Rightarrow> xct_id" where
  "xct_id_set e n =
     \<lparr>xid_epoch = e, xid_ordinal = n, xid_being_written = False,
      xid_deleted = False, xid_moved = False\<rparr>"

definition clear_status_bits :: "xct_id \<Rightarrow> xct_id" where
  "clear_status_bits x =
     x\<lparr>xid_being_written := False, xid_deleted := False, xid_moved := False\<rparr>"

definition set_deleted :: "xct_id \<Rightarrow> xct_id" where
  "set_deleted x = x\<lparr>xid_deleted := True\<rparr>"

definition set_being_written :: "xct_id \<Rightarrow> xct_id" where
  "set_being_written x = x\<lparr>xid_being_written := True\<rparr>"

text \<open>
  Modelled from the spec: \<open>XctId::before\<close> is lexicographic on (epoch, ordinal), and
  \<open>store_max\<close> keeps the later id.
\<close>

definition xct_id_before :: "xct_id \<Rightarrow> xct_id \<Rightarrow> bool" where
  "xct_id_before a b =
     (epoch_before (xid_epoch a) (xid_epoch b) \<or>
      (xid_epoch a = xid_epoch b \<and> xid_ordinal a < xid_ordinal b))"

definition xct_id_store_max :: "xct_id \<Rightarrow> xct_id \<Rightarrow> xct_id" where
  "xct_id_store_max this other = (if xct_id_before this other then other else this)"

section \<open>The epoch-advance wakeup and wait_for_commit\<close>

text \<open>
  The part of \<open>XctManagerControlBlock\<close> that \<open>wait_for_commit\<close> touches: the
  current global epoch and the condition variable \<open>epoch_advance_wakeup_\<close>, of which
  the number of signals sent is recorded.
\<close>

record xct_manager_control_block =
  current_global_epoch :: epoch
  epoch_advance_wakeup_signals :: nat

definition get_current_global_epoch :: "xct_manager_control_block \<Rightarrow> epoch" where
  "get_current_global_epoch cb = current_global_epoch cb"

definition wakeup_epoch_advance_thread ::
  "xct_manager_control_block \<Rightarrow> xct_manager_control_block" where
  "wakeup_epoch_advance_thread cb =
     cb\<lparr>epoch_advance_wakeup_signals := Suc (epoch_advance_wakeup_signals cb)\<rparr>"

text \<open>
  \<open>XctManagerPimpl::wait_for_commit\<close>. The log manager's \<open>wait_until_durable\<close> is an
  external collaborator and is a parameter.
\<close>

definition wait_for_commit ::
  "(epoch \<Rightarrow> int \<Rightarrow> error_code) \<Rightarrow> xct_manager_control_block \<Rightarrow> epoch \<Rightarrow> int
     \<Rightarrow> error_code \<times> xct_manager_control_block" where
  "wait_for_commit wait_until_durable cb commit_epoch wait_microseconds =
     (let cb' = (if epoch_before commit_epoch (get_current_global_epoch cb)
                 then wakeup_epoch_advance_thread cb else cb)
      in (wait_until_durable commit_epoch wait_microseconds, cb'))"

section \<open>Access sets, transaction context and shared memory\<close>

text \<open>
  Modelled from the spec: \<open>LockableXctId\<close> (xct_id.hpp is not among the sources), the
  MCS key lock word and the transaction id of a record, as the commit code reads them
  (\<open>lock_\<close>, \<open>xct_id_\<close>, \<open>is_keylocked\<close>, \<open>is_moved\<close>). The lock word holds the
  MCS block of its holder, 0 when nobody holds it.
\<close>

record lockable_xct_id =
  owner_lock :: nat
  owner_xct_id :: xct_id

definition is_keylocked :: "lockable_xct_id \<Rightarrow> bool" where
  "is_keylocked l = (owner_lock l \<noteq> 0)"

definition is_moved :: "lockable_xct_id \<Rightarrow> bool" where
  "is_moved l = xid_moved (owner_xct_id l)"

record xct_access =
  r_storage_id :: storage_id
  r_owner_id_address :: addr
  observed_owner_id :: xct_id

record write_xct_access =
  w_storage_id :: storage_id
  owner_id_address :: addr
  payload_address :: addr
  log_entry :: addr
  mcs_block :: nat

record lock_free_write_xct_access =
  lf_storage_id :: storage_id
  lf_log_entry :: addr

record pointer_access =
  p_address :: addr
  p_observed :: "64 word"

record page_version_access =
  v_address :: addr
  v_observed :: "64 word"

datatype isolation_level = kDirtyRead | kSnapshot | kReadCommitted | kSerializable

record xct =
  active :: bool
  isolation :: isolation_level
  xct_own_id :: xct_id
  in_commit_log_epoch :: epoch
  read_set :: "xct_access list"
  write_set :: "write_xct_access list"
  lock_free_write_set :: "lock_free_write_xct_access list"
  pointer_set :: "pointer_access list"
  page_version_set :: "page_version_access list"
  mcs_block_current :: nat

record thread_log_buffer =
  offset_committed :: nat
  offset_tail :: nat

text \<open>
  The shared memory the commit protocol reads and writes: owner ids by address, the words
  of dual page pointers, page version words, the transaction id in the header of each log
  entry, and the record payloads (of a type \<open>'p\<close> the storage implementations own).
\<close>

record 'p shared_memory =
  owners :: "addr \<Rightarrow> lockable_xct_id"
  pointer_words :: "addr \<Rightarrow> 64 word"
  page_versions :: "addr \<Rightarrow> 64 word"
  log_headers :: "addr \<Rightarrow> xct_id"
  payloads :: 'p

text \<open>
  A worker thread (\<open>thread::Thread\<close>) with its transaction and log buffer, the shared
  memory, the current global epoch of the control block and the durable global epoch of
  the log manager.
\<close>

record 'p thread_context =
  current_xct :: xct
  log_buffer :: thread_log_buffer
  shared :: "'p shared_memory"
  global_epoch :: epoch
  durable_global_epoch :: epoch

text \<open>
  The collaborators outside the commit core, taken as parameters: the storage manager's
  \<open>track_moved_record\<close> in its two overloads (for a write access it yields the new
  owner and payload addresses, or nothing when tracking fails), \<open>log::invoke_apply_record\<close>
  (it yields the owner's transaction id word and the payloads after the log is applied),
  \<open>Xct::is_read_only\<close> and the constant \<open>Epoch::kEpochInitialDurable\<close>.
\<close>

record 'p externals =
  track_moved_write :: "'p shared_memory \<Rightarrow> write_xct_access \<Rightarrow> (addr \<times> addr) option"
  track_moved_read :: "'p shared_memory \<Rightarrow> storage_id \<Rightarrow> addr \<Rightarrow> addr"
  apply_record :: "'p shared_memory \<Rightarrow> addr \<Rightarrow> storage_id \<Rightarrow> addr \<Rightarrow> addr \<Rightarrow> xct_id \<times> 'p"
  apply_record_lock_free :: "'p shared_memory \<Rightarrow> addr \<Rightarrow> storage_id \<Rightarrow> 'p"
  is_read_only :: "xct \<Rightarrow> bool"
  kEpochInitialDurable :: epoch

text \<open>
  Modelled from the spec: \<open>Xct::activate\<close> and \<open>Xct::deactivate\<close> (xct.hpp is not
  among the sources). Activation starts with empty access sets and a zero MCS block
  counter.
\<close>

definition activate :: "isolation_level \<Rightarrow> xct \<Rightarrow> xct" where
  "activate level x =
     x\<lparr>active := True, isolation := level, read_set := [], write_set := [],
       lock_free_write_set := [], pointer_set := [], page_version_set := [],
       mcs_block_current := 0\<rparr>"

definition deactivate :: "xct \<Rightarrow> xct" where
  "deactivate x = x\<lparr>active := False\<rparr>"

text \<open>
  Modelled from the spec: \<open>ThreadLogBuffer::discard_current_xct_log\<close> drops the
  uncommitted tail and \<open>publish_committed_log\<close> makes the tail committed.
\<close>

definition discard_current_xct_log :: "thread_log_buffer \<Rightarrow> thread_log_buffer" where
  "discard_current_xct_log b = b\<lparr>offset_tail := offset_committed b\<rparr>"

definition publish_committed_log :: "epoch \<Rightarrow> thread_log_buffer \<Rightarrow> thread_log_buffer" where
  "publish_committed_log commit_epoch b = b\<lparr>offset_committed := offset_tail b\<rparr>"

text \<open>
  Modelled from the spec: the MCS key lock of \<open>thread::Thread\<close>. Acquiring takes the
  next block of the worker (block 0 is reserved for "no lock held"), leaves the lock word
  owned by that block and returns it. Waiting for a predecessor is not modelled: the call
  returns once the lock is ours. Releasing frees the lock word.
\<close>

definition set_owner_lock :: "'p shared_memory \<Rightarrow> addr \<Rightarrow> nat \<Rightarrow> 'p shared_memory" where
  "set_owner_lock m a block =
     m\<lparr>owners := (owners m)(a := (owners m a)\<lparr>owner_lock := block\<rparr>)\<rparr>"

definition mcs_acquire_lock ::
  "'p shared_memory \<Rightarrow> nat \<Rightarrow> addr \<Rightarrow> nat \<times> 'p shared_memory \<times> nat" where
  "mcs_acquire_lock m cur a =
     (let block = Suc cur in (block, set_owner_lock m a block, block))"

definition mcs_release_lock :: "'p shared_memory \<Rightarrow> addr \<Rightarrow> nat \<Rightarrow> 'p shared_memory" where
  "mcs_release_lock m a block = set_owner_lock m a 0"

definition set_owner_xct_id :: "'p shared_memory \<Rightarrow> addr \<Rightarrow> xct_id \<Rightarrow> 'p shared_memory" where
  "set_owner_xct_id m a x =
     m\<lparr>owners := (owners m)(a := (owners m a)\<lparr>owner_xct_id := x\<rparr>)\<rparr>"

section \<open>begin_xct and abort_xct\<close>

definition begin_xct :: "isolation_level \<Rightarrow> 'p thread_context \<Rightarrow> error_code \<times> 'p thread_context" where
  "begin_xct level c =
     (if active (current_xct c) then (kErrorCodeXctAlreadyRunning, c)
      else (kErrorCodeOk, c\<lparr>current_xct := activate level (current_xct c)\<rparr>))"

definition abort_xct :: "'p thread_context \<Rightarrow> error_code \<times> 'p thread_context" where
  "abort_xct c =
     (if \<not> active (current_xct c) then (kErrorCodeXctNoXct, c)
      else (kErrorCodeOk,
            c\<lparr>current_xct := deactivate (current_xct c),
              log_buffer := discard_current_xct_log (log_buffer c)\<rparr>))"

section \<open>Commit phase 2: verification\<close>

text \<open>\<open>precommit_xct_verify_pointer_set\<close>: every observed pointer word is unchanged.\<close>

fun precommit_xct_verify_pointer_set :: "'p shared_memory \<Rightarrow> pointer_access list \<Rightarrow> bool" where
  "precommit_xct_verify_pointer_set m [] = True"
| "precommit_xct_verify_pointer_set m (access # rest) =
     (if pointer_words m (p_address access) \<noteq> p_observed access then False
      else precommit_xct_verify_pointer_set m rest)"

text \<open>\<open>precommit_xct_verify_page_version_set\<close>: every observed page version is unchanged.\<close>

fun precommit_xct_verify_page_version_set ::
  "'p shared_memory \<Rightarrow> page_version_access list \<Rightarrow> bool" where
  "precommit_xct_verify_page_version_set m [] = True"
| "precommit_xct_verify_page_version_set m (access # rest) =
     (if page_versions m (v_address access) \<noteq> v_observed access then False
      else precommit_xct_verify_page_version_set m rest)"

text \<open>
  The tracking step both read-set loops share: an access whose owner carries the moved
  bit is redirected to the address the storage manager reports.
\<close>

definition track_read_access :: "'p externals \<Rightarrow> 'p shared_memory \<Rightarrow> xct_access \<Rightarrow> xct_access" where
  "track_read_access ext m access =
     (if is_moved (owners m (r_owner_id_address access))
      then access\<lparr>r_owner_id_address :=
             track_moved_read ext m (r_storage_id access) (r_owner_id_address access)\<rparr>
      else access)"

text \<open>
  The read-set loop of \<open>precommit_xct_verify_readonly\<close>. It returns whether every
  observed id is still current, the read set with the tracked addresses, and the commit
  epoch raised to the observed epochs. The loop stops at the first changed record.
\<close>

fun verify_readonly_read_set ::
  "'p externals \<Rightarrow> 'p shared_memory \<Rightarrow> xct_access list \<Rightarrow> epoch
     \<Rightarrow> bool \<times> xct_access list \<times> epoch" where
  "verify_readonly_read_set ext m [] commit_epoch = (True, [], commit_epoch)"
| "verify_readonly_read_set ext m (a # rest) commit_epoch =
     (let access = track_read_access ext m a
      in if observed_owner_id access \<noteq> owner_xct_id (owners m (r_owner_id_address access))
         then (False, access # rest, commit_epoch)
         else (case verify_readonly_read_set ext m rest
                      (epoch_store_max commit_epoch (xid_epoch (observed_owner_id access)))
               of (ok, rest', e) \<Rightarrow> (ok, access # rest', e)))"

text \<open>
  \<open>precommit_xct_verify_readonly\<close>: the result, the transaction with its read set as
  the loop left it, and the commit epoch. When the loop fails the function returns at
  once; otherwise an invalid commit epoch is replaced by the durable global epoch before
  the pointer set and the page version set are checked.
\<close>

definition precommit_xct_verify_readonly ::
  "'p externals \<Rightarrow> 'p thread_context \<Rightarrow> epoch \<Rightarrow> bool \<times> 'p thread_context \<times> epoch" where
  "precommit_xct_verify_readonly ext c commit_epoch =
     (case verify_readonly_read_set ext (shared c) (read_set (current_xct c)) commit_epoch
      of (ok, rs, e) \<Rightarrow>
        (let c' = c\<lparr>current_xct := (current_xct c)\<lparr>read_set := rs\<rparr>\<rparr>
         in if \<not> ok then (False, c', e)
            else (let e' = (if \<not> epoch_is_valid e then durable_global_epoch c else e)
                  in if \<not> precommit_xct_verify_pointer_set (shared c)
                            (pointer_set (current_xct c))
                     then (False, c', e')
                     else if \<not> precommit_xct_verify_page_version_set (shared c)
                                 (page_version_set (current_xct c))
                     then (False, c', e')
                     else (True, c', e'))))"

text \<open>The read-set loop of \<open>precommit_xct_verify_readwrite\<close>, raising \<open>max_xct_id\<close>.\<close>

fun verify_readwrite_read_set ::
  "'p externals \<Rightarrow> 'p shared_memory \<Rightarrow> xct_access list \<Rightarrow> xct_id
     \<Rightarrow> bool \<times> xct_access list \<times> xct_id" where
  "verify_readwrite_read_set ext m [] max_xct_id = (True, [], max_xct_id)"
| "verify_readwrite_read_set ext m (a # rest) max_xct_id =
     (let access = track_read_access ext m a
      in if observed_owner_id access \<noteq> owner_xct_id (owners m (r_owner_id_address access))
         then (False, access # rest, max_xct_id)
         else (case verify_readwrite_read_set ext m rest
                      (xct_id_store_max max_xct_id (observed_owner_id access))
               of (ok, rest', x) \<Rightarrow> (ok, access # rest', x)))"

definition precommit_xct_verify_readwrite ::
  "'p externals \<Rightarrow> 'p thread_context \<Rightarrow> xct_id \<Rightarrow> bool \<times> 'p thread_context \<times> xct_id" where
  "precommit_xct_verify_readwrite ext c max_xct_id =
     (case verify_readwrite_read_set ext (shared c) (read_set (current_xct c)) max_xct_id
      of (ok, rs, x) \<Rightarrow>
        (let c' = c\<lparr>current_xct := (current_xct c)\<lparr>read_set := rs\<rparr>\<rparr>
         in if \<not> ok then (False, c', x)
            else if \<not> precommit_xct_verify_pointer_set (shared c)
                        (pointer_set (current_xct c))
            then (False, c', x)
            else if \<not> precommit_xct_verify_page_version_set (shared c)
                        (page_version_set (current_xct c))
            then (False, c', x)
            else (True, c', x)))"

section \<open>Commit phase 1: locking the write set\<close>

text \<open>
  \<open>precommit_xct_unlock\<close>: releases the key lock of every write-set entry that holds
  one (a non-zero \<open>mcs_block_\<close>) and resets the block.
\<close>

fun precommit_xct_unlock ::
  "'p shared_memory \<Rightarrow> write_xct_access list \<Rightarrow> 'p shared_memory \<times> write_xct_access list" where
  "precommit_xct_unlock m [] = (m, [])"
| "precommit_xct_unlock m (write # rest) =
     (if mcs_block write \<noteq> 0
      then (case precommit_xct_unlock
                   (mcs_release_lock m (owner_id_address write) (mcs_block write)) rest
            of (m', rest') \<Rightarrow> (m', write\<lparr>mcs_block := 0\<rparr> # rest'))
      else (case precommit_xct_unlock m rest
            of (m', rest') \<Rightarrow> (m', write # rest')))"

text \<open>
  The moved-bit pass that opens each round of \<open>precommit_xct_lock\<close>: an entry whose
  owner carries the moved bit is tracked to its new addresses; the pass stops with failure
  at the first entry that cannot be tracked.
\<close>

fun track_moved_pass ::
  "'p externals \<Rightarrow> 'p shared_memory \<Rightarrow> write_xct_access list \<Rightarrow> bool \<times> write_xct_access list" where
  "track_moved_pass ext m [] = (True, [])"
| "track_moved_pass ext m (write # rest) =
     (if is_moved (owners m (owner_id_address write))
      then (case track_moved_write ext m write of
              None \<Rightarrow> (False, write # rest)
            | Some (owner_address, payload) \<Rightarrow>
                (case track_moved_pass ext m rest
                 of (ok, rest') \<Rightarrow>
                   (ok, write\<lparr>owner_id_address := owner_address,
                               payload_address := payload\<rparr> # rest')))
      else (case track_moved_pass ext m rest
            of (ok, rest') \<Rightarrow> (ok, write # rest')))"

text \<open>
  The state the locking loop works on: shared memory, the write set, the worker's MCS
  block counter and \<open>max_xct_id\<close>.
\<close>

type_synonym 'p lock_state = "'p shared_memory \<times> write_xct_access list \<times> nat \<times> xct_id"

text \<open>
  Whether entry \<open>i\<close> is followed by an entry of the same record: the test
  \<open>i < write_set_size - 1 && write_set[i].owner_id_address_ == write_set[i + 1].owner_id_address_\<close>
  of both the locking and the applying loop.
\<close>

definition same_record_follows :: "nat \<Rightarrow> write_xct_access list \<Rightarrow> nat \<Rightarrow> bool" where
  "same_record_follows write_set_size ws i =
     (i < write_set_size - 1 \<and> owner_id_address (ws ! i) = owner_id_address (ws ! (i + 1)))"

text \<open>
  The locking loop of \<open>precommit_xct_lock\<close>, from index \<open>i\<close>. The first component of
  the result is \<open>needs_retry\<close>: an owner found moved right after its lock was taken makes
  the loop release every lock taken so far and stop.
\<close>

function lock_loop :: "nat \<Rightarrow> nat \<Rightarrow> 'p lock_state \<Rightarrow> bool \<times> 'p lock_state" where
  "lock_loop write_set_size i (m, ws, cur, max_xct_id) =
     (if i < write_set_size then
        (if same_record_follows write_set_size ws i
         then lock_loop write_set_size (Suc i) (m, ws, cur, max_xct_id)
         else (case mcs_acquire_lock m cur (owner_id_address (ws ! i))
               of (block, m1, cur1) \<Rightarrow>
                 (let ws1 = ws[i := (ws ! i)\<lparr>mcs_block := block\<rparr>]
                  in if is_moved (owners m1 (owner_id_address (ws1 ! i)))
                     then (case precommit_xct_unlock m1 ws1
                           of (m2, ws2) \<Rightarrow> (True, (m2, ws2, cur1, max_xct_id)))
                     else lock_loop write_set_size (Suc i)
                            (m1, ws1, cur1,
                             xct_id_store_max max_xct_id
                               (owner_xct_id (owners m1 (owner_id_address (ws1 ! i))))))))
      else (False, (m, ws, cur, max_xct_id)))"
  by pat_completeness auto
termination
  by (relation "measure (\<lambda>(n, i, s). n - i)") auto

text \<open>
  Modelled from the spec: \<open>WriteXctAccess::compare\<close> (xct_access.hpp is not among the
  sources) orders write accesses by owner address, ascending; \<open>std::sort\<close> with it is
  a sort on that key.
\<close>

definition sort_write_set :: "write_xct_access list \<Rightarrow> write_xct_access list" where
  "sort_write_set ws = sort_key owner_id_address ws"

text \<open>
  One round of the \<open>while (true)\<close> loop of \<open>precommit_xct_lock\<close>: the moved-bit
  pass, the sort, the locking loop. The first component tells whether tracking succeeded,
  the second is \<open>needs_retry\<close>.
\<close>

definition lock_round :: "'p externals \<Rightarrow> 'p lock_state \<Rightarrow> bool \<times> bool \<times> 'p lock_state" where
  "lock_round ext s =
     (case s of (m, ws, cur, max_xct_id) \<Rightarrow>
       (case track_moved_pass ext m ws of (tracked, ws') \<Rightarrow>
          if \<not> tracked then (False, False, (m, ws', cur, max_xct_id))
          else (case lock_loop (length ws') 0 (m, sort_write_set ws', cur, max_xct_id)
                of (needs_retry, s') \<Rightarrow> (True, needs_retry, s'))))"

text \<open>
  Tracking settles when the moved-bit pass either fails or leaves no write-set entry on a
  record that carries the moved bit; this is so in particular when no record of the write
  set has been moved.
\<close>

definition tracking_settles ::
  "'p externals \<Rightarrow> 'p shared_memory \<Rightarrow> write_xct_access list \<Rightarrow> bool" where
  "tracking_settles ext m ws =
     (fst (track_moved_pass ext m ws) \<longrightarrow>
        (\<forall>w\<in>set (snd (track_moved_pass ext m ws)).
           \<not> is_moved (owners m (owner_id_address w))))"

text \<open>
  \<open>precommit_xct_lock\<close>: rounds until one locks every record without meeting a moved
  one. The result is \<open>None\<close> when the rounds never end; otherwise the success flag (false
  when a record could not be tracked) and the state.
\<close>

partial_function (option) precommit_xct_lock ::
  "'p externals \<Rightarrow> 'p lock_state \<Rightarrow> (bool \<times> 'p lock_state) option" where
  "precommit_xct_lock ext s =
     (let r = lock_round ext s
      in if \<not> fst r then Some (False, snd (snd r))
         else if fst (snd r) then precommit_xct_lock ext (snd (snd r))
         else Some (True, snd (snd r)))"

section \<open>Commit phase 3: apply and unlock\<close>

text \<open>
  Modelled from the spec: \<open>Xct::issue_next_id\<close> (xct.cpp is not among the sources).
  The new id has the commit epoch, the ordinal
  \<open>max(max_xct_id.ordinal + 1, last_local_ordinal + 1)\<close>, where the last local ordinal
  is that of the id this worker issued before, and cleared status bits.
\<close>

definition issue_next_id :: "xct_id \<Rightarrow> epoch \<Rightarrow> xct \<Rightarrow> xct" where
  "issue_next_id max_xct_id commit_epoch x =
     x\<lparr>xct_own_id :=
         xct_id_set commit_epoch
           (max (xid_ordinal max_xct_id + 1) (xid_ordinal (xct_own_id x) + 1))\<rparr>"

definition set_log_xct_id :: "'p shared_memory \<Rightarrow> addr \<Rightarrow> xct_id \<Rightarrow> 'p shared_memory" where
  "set_log_xct_id m l x = m\<lparr>log_headers := (log_headers m)(l := x)\<rparr>"

text \<open>
  The body of the write-set loop of \<open>precommit_xct_apply\<close> for entry \<open>i\<close>: stamp the
  log, mark the owner as being written unless the previous entry is of the same record,
  apply the log, and, unless the next entry is of the same record, write the final owner
  id and release the key lock.
\<close>

definition apply_write ::
  "'p externals \<Rightarrow> nat \<Rightarrow> xct_id \<Rightarrow> nat
     \<Rightarrow> 'p shared_memory \<times> write_xct_access list
     \<Rightarrow> 'p shared_memory \<times> write_xct_access list" where
  "apply_write ext write_set_size new_xct_id i s =
     (case s of (m, ws) \<Rightarrow>
       (let write = ws ! i;
            a = owner_id_address write;
            new_deleted_xct_id = set_deleted new_xct_id;
            m1 = set_log_xct_id m (log_entry write) new_xct_id;
            m2 = (if i > 0 \<and> a = owner_id_address (ws ! (i - 1)) then m1
                  else set_owner_xct_id m1 a (set_being_written (owner_xct_id (owners m1 a))));
            applied = apply_record ext m2 (log_entry write) (w_storage_id write) a
                        (payload_address write);
            m3 = (set_owner_xct_id m2 a (fst applied))\<lparr>payloads := snd applied\<rparr>
        in if same_record_follows write_set_size ws i then (m3, ws)
           else (let m4 = set_owner_xct_id m3 a
                            (if xid_deleted (owner_xct_id (owners m3 a))
                             then new_deleted_xct_id else new_xct_id);
                     m5 = mcs_release_lock m4 a (mcs_block write)
                 in (m5, ws[i := write\<lparr>mcs_block := 0\<rparr>]))))"

text \<open>The state after the first \<open>k\<close> iterations of the write-set loop.\<close>

definition apply_writes ::
  "'p externals \<Rightarrow> nat \<Rightarrow> xct_id \<Rightarrow> nat
     \<Rightarrow> 'p shared_memory \<times> write_xct_access list
     \<Rightarrow> 'p shared_memory \<times> write_xct_access list" where
  "apply_writes ext write_set_size new_xct_id k s =
     fold (apply_write ext write_set_size new_xct_id) [0..<k] s"

text \<open>The loop over the lock-free write set: stamp the log and apply it, no owner, no lock.\<close>

fun apply_lock_free_writes ::
  "'p externals \<Rightarrow> xct_id \<Rightarrow> lock_free_write_xct_access list \<Rightarrow> 'p shared_memory
     \<Rightarrow> 'p shared_memory" where
  "apply_lock_free_writes ext new_xct_id [] m = m"
| "apply_lock_free_writes ext new_xct_id (write # rest) m =
     (let m1 = set_log_xct_id m (lf_log_entry write) new_xct_id;
          m2 = m1\<lparr>payloads := apply_record_lock_free ext m1 (lf_log_entry write)
                                (lf_storage_id write)\<rparr>
      in apply_lock_free_writes ext new_xct_id rest m2)"

definition precommit_xct_apply ::
  "'p externals \<Rightarrow> 'p thread_context \<Rightarrow> xct_id \<Rightarrow> epoch \<Rightarrow> 'p thread_context" where
  "precommit_xct_apply ext c max_xct_id commit_epoch =
     (let x = issue_next_id max_xct_id commit_epoch (current_xct c);
          new_xct_id = clear_status_bits (xct_own_id x);
          n = length (write_set x)
      in (case apply_writes ext n new_xct_id n (shared c, write_set x) of (m, ws) \<Rightarrow>
            c\<lparr>current_xct := x\<lparr>write_set := ws\<rparr>,
              shared := apply_lock_free_writes ext new_xct_id (lock_free_write_set x) m\<rparr>))"

section \<open>precommit_xct\<close>

definition precommit_xct_readonly ::
  "'p externals \<Rightarrow> 'p thread_context \<Rightarrow> bool \<times> 'p thread_context \<times> epoch" where
  "precommit_xct_readonly ext c = precommit_xct_verify_readonly ext c kEpochInvalid"

text \<open>
  The state \<open>precommit_xct_lock\<close> starts from: the write set and MCS block counter of
  the transaction, and \<open>max_xct_id\<close> set to (\<open>kEpochInitialDurable\<close>, 1).
\<close>

definition lock_input :: "'p externals \<Rightarrow> 'p thread_context \<Rightarrow> 'p lock_state" where
  "lock_input ext c =
     (shared c, write_set (current_xct c), mcs_block_current (current_xct c),
      xct_id_set (kEpochInitialDurable ext) 1)"

text \<open>The context once \<open>precommit_xct_lock\<close> has worked on the write set in place.\<close>

definition store_lock_state :: "'p thread_context \<Rightarrow> 'p lock_state \<Rightarrow> 'p thread_context" where
  "store_lock_state c s =
     (case s of (m, ws, cur, max_xct_id) \<Rightarrow>
        c\<lparr>current_xct := (current_xct c)\<lparr>write_set := ws, mcs_block_current := cur\<rparr>,
          shared := m\<rparr>)"

text \<open>
  Modelled from the spec: \<open>Xct::InCommitLogEpochGuard\<close> (xct.hpp is not among the
  sources). Its constructor publishes the epoch the worker may commit in, its destructor
  clears it.
\<close>

definition enter_commit :: "'p thread_context \<Rightarrow> 'p thread_context" where
  "enter_commit c =
     c\<lparr>current_xct := (current_xct c)\<lparr>in_commit_log_epoch := global_epoch c\<rparr>\<rparr>"

definition leave_commit :: "'p thread_context \<Rightarrow> 'p thread_context" where
  "leave_commit c =
     c\<lparr>current_xct := (current_xct c)\<lparr>in_commit_log_epoch := kEpochInvalid\<rparr>\<rparr>"

text \<open>
  \<open>precommit_xct_readwrite\<close>. The argument \<open>commit_epoch\<close> is the value the output
  parameter holds at the call; it is still there when locking fails.
\<close>

definition precommit_xct_readwrite ::
  "'p externals \<Rightarrow> 'p thread_context \<Rightarrow> epoch \<Rightarrow> (bool \<times> 'p thread_context \<times> epoch) option" where
  "precommit_xct_readwrite ext c commit_epoch =
     (case precommit_xct_lock ext (lock_input ext c) of
        None \<Rightarrow> None
      | Some (success, s) \<Rightarrow>
          (let c1 = store_lock_state c s
           in if \<not> success then Some (False, c1, commit_epoch)
              else (let c2 = enter_commit c1;
                        e = global_epoch c2
                    in (case precommit_xct_verify_readwrite ext c2 (snd (snd (snd s))) of
                          (verified, c3, max_xct_id) \<Rightarrow>
                            if verified
                            then (let c4 = precommit_xct_apply ext c3 max_xct_id e;
                                      c5 = c4\<lparr>log_buffer := publish_committed_log e (log_buffer c4)\<rparr>
                                  in Some (True, leave_commit c5, e))
                            else (case precommit_xct_unlock (shared c3) (write_set (current_xct c3))
                                  of (m', ws') \<Rightarrow>
                                    Some (False,
                                      leave_commit
                                        (c3\<lparr>current_xct := (current_xct c3)\<lparr>write_set := ws'\<rparr>,
                                            shared := m'\<rparr>),
                                      e))))))"

text \<open>
  \<open>XctManagerPimpl::precommit_xct\<close>: the error code, the context and the value of the
  output parameter \<open>commit_epoch\<close>; \<open>None\<close> when the locking rounds never end.
\<close>

definition precommit_xct ::
  "'p externals \<Rightarrow> 'p thread_context \<Rightarrow> epoch
     \<Rightarrow> (error_code \<times> 'p thread_context \<times> epoch) option" where
  "precommit_xct ext c commit_epoch =
     (if \<not> active (current_xct c) then Some (kErrorCodeXctNoXct, c, commit_epoch)
      else (case (if is_read_only ext (current_xct c)
                  then Some (precommit_xct_readonly ext c)
                  else precommit_xct_readwrite ext c commit_epoch) of
              None \<Rightarrow> None
            | Some (success, c', e) \<Rightarrow>
                (let c'' = c'\<lparr>current_xct := deactivate (current_xct c')\<rparr>
                 in if success then Some (kErrorCodeOk, c'', e)
                    else Some (kErrorCodeXctRaceAbort,
                               c''\<lparr>log_buffer := discard_current_xct_log (log_buffer c'')\<rparr>,
                               e))))"

section \<open>The partitioner registry of the log gleaner\<close>

text \<open>
  \<open>LogGleaner::get_or_create_partitioner\<close> is called by the mapper threads at the same
  time. Under \<open>partitioners_mutex_\<close> a call runs in two critical sections with the
  creation of a partitioner between them, so a call is at one of these points: not yet
  started, before the first critical section, after a miss and before the creation, holding
  its speculative partitioner before the second critical section, or returned.
\<close>

datatype call_point =
    NotCalled
  | BeforeFirstLookup storage_id
  | BeforeCreate storage_id
  | BeforeSecondLookup storage_id addr
  | Returned storage_id addr

text \<open>
  The map \<open>partitioners_\<close>, the partitioner objects on the heap, and the point each
  call (numbered) has reached.
\<close>

record gleaner_state =
  partitioners :: "storage_id \<Rightarrow> addr option"
  live_partitioners :: "addr set"
  calls :: "nat \<Rightarrow> call_point"

definition initial_gleaner :: gleaner_state where
  "initial_gleaner =
     \<lparr>partitioners = (\<lambda>_. None), live_partitioners = {}, calls = (\<lambda>_. NotCalled)\<rparr>"

text \<open>
  What the scheduler picks next: a new call, or the next atomic step of a call. The
  address is the one \<open>new\<close> hands out if that step is the creation.
\<close>

datatype gleaner_event = Call nat storage_id | Step nat addr

text \<open>
  One atomic step of \<open>get_or_create_partitioner\<close>.
  Modelled from the spec: \<open>Partitioner::create_partitioner\<close> (partitioner.cpp is not
  among the sources) allocates a new partitioner object; its address is neither null nor
  that of a live object, and a step that would break this does not happen.
\<close>

definition gleaner_step :: "gleaner_event \<Rightarrow> gleaner_state \<Rightarrow> gleaner_state" where
  "gleaner_step ev g =
     (case ev of
        Call c storage_id \<Rightarrow>
          (if calls g c = NotCalled
           then g\<lparr>calls := (calls g)(c := BeforeFirstLookup storage_id)\<rparr> else g)
      | Step c fresh \<Rightarrow>
          (case calls g c of
             NotCalled \<Rightarrow> g
           | BeforeFirstLookup storage_id \<Rightarrow>
               (case partitioners g storage_id of
                  Some found \<Rightarrow> g\<lparr>calls := (calls g)(c := Returned storage_id found)\<rparr>
                | None \<Rightarrow> g\<lparr>calls := (calls g)(c := BeforeCreate storage_id)\<rparr>)
           | BeforeCreate storage_id \<Rightarrow>
               (if fresh = 0 \<or> fresh \<in> live_partitioners g then g
                else g\<lparr>live_partitioners := insert fresh (live_partitioners g),
                       calls := (calls g)(c := BeforeSecondLookup storage_id fresh)\<rparr>)
           | BeforeSecondLookup storage_id partitioner \<Rightarrow>
               (case partitioners g storage_id of
                  Some found \<Rightarrow>
                    g\<lparr>live_partitioners := live_partitioners g - {partitioner},
                      calls := (calls g)(c := Returned storage_id found)\<rparr>
                | None \<Rightarrow>
                    g\<lparr>partitioners := (partitioners g)(storage_id := Some partitioner),
                      calls := (calls g)(c := Returned storage_id partitioner)\<rparr>)
           | Returned storage_id partitioner \<Rightarrow> g))"

text \<open>The gleaner after a schedule, a list of events in the order they happen.\<close>

definition gleaner_run :: "gleaner_event list \<Rightarrow> gleaner_state \<Rightarrow> gleaner_state" where
  "gleaner_run evs g = fold gleaner_step evs g"


section \<open>Concrete inputs\<close>

text \<open>
  Inputs on which the theorems below are run: collaborators that track nothing and apply
  nothing, a memory of unlocked records last written in epoch 3 (the record at address 30
  has been moved, the one at 40 was never written), and a worker whose last transaction id
  is (3, 4).
\<close>

definition example_ext :: "unit externals" where
  "example_ext =
     \<lparr>track_moved_write = (\<lambda>m w. None),
      track_moved_read = (\<lambda>m storage a. a),
      apply_record = (\<lambda>m l storage a p. (owner_xct_id (owners m a), ())),
      apply_record_lock_free = (\<lambda>m l storage. ()),
      is_read_only = (\<lambda>x. write_set x = [] \<and> lock_free_write_set x = []),
      kEpochInitialDurable = 1\<rparr>"

definition example_memory :: "unit shared_memory" where
  "example_memory =
     \<lparr>owners = (\<lambda>a. \<lparr>owner_lock = 0,
                      owner_xct_id =
                        (if a = 30 then (xct_id_set 3 1)\<lparr>xid_moved := True\<rparr>
                         else if a = 40 then xct_id_set 0 0
                         else xct_id_set 3 1)\<rparr>),
      pointer_words = (\<lambda>a. 0),
      page_versions = (\<lambda>a. 0),
      log_headers = (\<lambda>a. xct_id_set 0 0),
      payloads = ()\<rparr>"

definition example_xct :: xct where
  "example_xct =
     \<lparr>active = True, isolation = kSerializable, xct_own_id = xct_id_set 3 4,
      in_commit_log_epoch = 0, read_set = [], write_set = [], lock_free_write_set = [],
      pointer_set = [], page_version_set = [], mcs_block_current = 0\<rparr>"

definition example_context :: "unit thread_context" where
  "example_context =
     \<lparr>current_xct = example_xct,
      log_buffer = \<lparr>offset_committed = 100, offset_tail = 164\<rparr>,
      shared = example_memory,
      global_epoch = 5,
      durable_global_epoch = 4\<rparr>"

text \<open>
  Transactions on these inputs: a read-only one whose only access is a pointer that has
  changed since; one that read the never-written record; one that read two records; one
  that writes the moved record; and one that writes record 20 twice and record 10 once.
\<close>

definition stale_pointer_context :: "unit thread_context" where
  "stale_pointer_context =
     example_context\<lparr>current_xct :=
       example_xct\<lparr>pointer_set := [\<lparr>p_address = 7, p_observed = 1\<rparr>]\<rparr>\<rparr>"

definition never_written_read_context :: "unit thread_context" where
  "never_written_read_context =
     example_context\<lparr>current_xct :=
       example_xct\<lparr>read_set :=
         [\<lparr>r_storage_id = 1, r_owner_id_address = 40, observed_owner_id = xct_id_set 0 0\<rparr>]\<rparr>\<rparr>"

definition two_reads_context :: "unit thread_context" where
  "two_reads_context =
     example_context\<lparr>current_xct :=
       example_xct\<lparr>read_set :=
         [\<lparr>r_storage_id = 1, r_owner_id_address = 10, observed_owner_id = xct_id_set 3 1\<rparr>,
          \<lparr>r_storage_id = 1, r_owner_id_address = 11, observed_owner_id = xct_id_set 3 1\<rparr>]\<rparr>\<rparr>"

definition moved_write_context :: "unit thread_context" where
  "moved_write_context =
     example_context\<lparr>current_xct :=
       example_xct\<lparr>write_set :=
         [\<lparr>w_storage_id = 1, owner_id_address = 30, payload_address = 31,
           log_entry = 200, mcs_block = 0\<rparr>]\<rparr>\<rparr>"

definition example_write_set :: "write_xct_access list" where
  "example_write_set =
     [\<lparr>w_storage_id = 1, owner_id_address = 20, payload_address = 21,
       log_entry = 200, mcs_block = 0\<rparr>,
      \<lparr>w_storage_id = 1, owner_id_address = 10, payload_address = 11,
       log_entry = 210, mcs_block = 0\<rparr>,
      \<lparr>w_storage_id = 1, owner_id_address = 20, payload_address = 21,
       log_entry = 220, mcs_block = 0\<rparr>]"

definition double_write_context :: "unit thread_context" where
  "double_write_context =
     example_context\<lparr>current_xct := example_xct\<lparr>write_set := example_write_set\<rparr>\<rparr>"

text \<open>
  Two mappers asking for the partitioner of storage 1 at the same time: both miss, both
  create (objects 100 and 101), the second call registers first, the first call loses.
\<close>

definition racing_schedule :: "gleaner_event list" where
  "racing_schedule =
     [Call 0 1, Call 1 1, Step 0 0, Step 1 0, Step 0 100, Step 1 101, Step 1 0, Step 0 0]"

section \<open>Invariants and auxiliary notions of the proofs\<close>

text \<open>
  The invariants of the partitioner registry: a registered partitioner is a live object and
  not null; a call that returned holds the registered partitioner of its storage; the
  speculative partitioner of a call is live, not null, not registered and not shared with
  another call; and every live partitioner is registered or the speculative one of a call.
\<close>

definition registered_live :: "gleaner_state \<Rightarrow> bool" where
  "registered_live g \<longleftrightarrow>
     (\<forall>storage p. partitioners g storage = Some p \<longrightarrow> p \<in> live_partitioners g \<and> p \<noteq> 0)"

definition returned_registered :: "gleaner_state \<Rightarrow> bool" where
  "returned_registered g \<longleftrightarrow>
     (\<forall>c storage p. calls g c = Returned storage p \<longrightarrow> partitioners g storage = Some p)"

definition speculative_private :: "gleaner_state \<Rightarrow> bool" where
  "speculative_private g \<longleftrightarrow>
     (\<forall>c storage p. calls g c = BeforeSecondLookup storage p \<longrightarrow>
        p \<in> live_partitioners g \<and> p \<noteq> 0 \<and>
        (\<forall>storage'. partitioners g storage' \<noteq> Some p) \<and>
        (\<forall>c' storage'. calls g c' = BeforeSecondLookup storage' p \<longrightarrow> c' = c))"

definition no_leak :: "gleaner_state \<Rightarrow> bool" where
  "no_leak g \<longleftrightarrow>
     (\<forall>q\<in>live_partitioners g.
        (\<exists>storage. partitioners g storage = Some q) \<or>
        (\<exists>c storage. calls g c = BeforeSecondLookup storage q))"

definition gleaner_inv :: "gleaner_state \<Rightarrow> bool" where
  "gleaner_inv g \<longleftrightarrow>
     registered_live g \<and> returned_registered g \<and> speculative_private g \<and> no_leak g"

text \<open>
  Two states of the \<open>mcs_block_\<close> fields of a write set: all zero, and zero at every
  entry that is followed by an entry of the same record. The write set after the first
  \<open>k\<close> iterations of the applying loop: the block is reset at each entry below \<open>k\<close>
  that is not followed by an entry of the same record.
\<close>

definition blocks_clear :: "write_xct_access list \<Rightarrow> bool" where
  "blocks_clear ws \<longleftrightarrow> (\<forall>w\<in>set ws. mcs_block w = 0)"

definition blocks_at_last_only :: "write_xct_access list \<Rightarrow> bool" where
  "blocks_at_last_only ws \<longleftrightarrow>
     (\<forall>j<length ws. same_record_follows (length ws) ws j \<longrightarrow> mcs_block (ws ! j) = 0)"

definition released_upto :: "write_xct_access list \<Rightarrow> nat \<Rightarrow> write_xct_access list" where
  "released_upto ws k =
     map (\<lambda>j. if j < k \<and> \<not> same_record_follows (length ws) ws j
              then (ws ! j)\<lparr>mcs_block := 0\<rparr> else ws ! j) [0..<length ws]"

text \<open>
  The entries at which the locking loop, started at index \<open>i\<close>, takes a lock: those not
  followed by an entry of the same record. What the loop has done when it ends without
  retry: only \<open>mcs_block_\<close> fields have changed, at exactly these entries; each holds a
  block taken after \<open>cur\<close>, which is also what the lock word of its record holds; the
  block counter has advanced by their number; no other owner id has changed, and no
  transaction id at all.
\<close>

definition acquired_from :: "nat \<Rightarrow> write_xct_access list \<Rightarrow> nat \<Rightarrow> nat set" where
  "acquired_from n ws i = {j. i \<le> j \<and> j < n \<and> \<not> same_record_follows n ws j}"

definition lock_post :: "nat \<Rightarrow> nat \<Rightarrow> 'p lock_state \<Rightarrow> bool \<times> 'p lock_state \<Rightarrow> bool" where
  "lock_post n i s r =
     (case s of (m, ws, cur, mx) \<Rightarrow> case r of (retry, m', ws', cur', mx') \<Rightarrow>
        \<not> retry \<and> length ws' = n \<and>
        (\<forall>j<n. ws' ! j = (if j \<in> acquired_from n ws i
                           then (ws ! j)\<lparr>mcs_block := mcs_block (ws' ! j)\<rparr> else ws ! j)) \<and>
        (\<forall>j\<in>acquired_from n ws i.
            cur < mcs_block (ws' ! j) \<and>
            owner_lock (owners m' (owner_id_address (ws ! j))) = mcs_block (ws' ! j)) \<and>
        cur' = cur + card (acquired_from n ws i) \<and>
        (\<forall>a. a \<notin> (\<lambda>j. owner_id_address (ws ! j)) ` acquired_from n ws i \<longrightarrow>
             owners m' a = owners m a) \<and>
        (\<forall>a. owner_xct_id (owners m' a) = owner_xct_id (owners m a)))"

section \<open>The bin bits of a hash storage\<close>

text \<open>
  The integer part of \<open>HashMetadata::set_capacity\<close>: the loop that counts the bits
  needed for \<open>bin_count\<close> bins, and the lower clamp at 8. The bin count itself comes
  from a floating-point expression and is taken as given; \<open>1ULL << bits\<close> does not
  overflow for \<open>bits < 64\<close>, so it is \<open>2 ^ bits\<close>.
\<close>

function bin_bits_loop :: "nat \<Rightarrow> nat \<Rightarrow> nat" where
  "bin_bits_loop bin_count bits =
     (if bits < 64 \<and> 2 ^ bits < bin_count
      then bin_bits_loop bin_count (Suc bits) else bits)"
  by pat_completeness auto
termination
  by (relation "measure (\<lambda>(c, bits). 64 - bits)") auto

declare bin_bits_loop.simps [simp del]

definition bin_bits_of_bin_count :: "nat \<Rightarrow> nat" where
  "bin_bits_of_bin_count bin_count =
     (let bits = bin_bits_loop bin_count 0 in if bits < 8 then 8 else bits)"

section \<open>Properties of wait_for_commit and abort_xct\<close>

text \<open>
  Claim C1, as the code has it: \<open>wait_for_commit\<close> signals the epoch-advance thread
  exactly when the commit epoch is before (cyclically less than) the current global epoch,
  not when it is greater; in every case it returns what the log manager's
  \<open>wait_until_durable\<close> returns for the same arguments, and the global epoch is not
  touched.
\<close>

theorem wait_for_commit_signals_iff_before:
  "wait_for_commit wait_until_durable cb commit_epoch wait_microseconds = (r, cb') \<Longrightarrow>
     r = wait_until_durable commit_epoch wait_microseconds \<and>
     current_global_epoch cb' = current_global_epoch cb \<and>
     (epoch_advance_wakeup_signals cb' = Suc (epoch_advance_wakeup_signals cb)
        \<longleftrightarrow> epoch_before commit_epoch (get_current_global_epoch cb)) \<and>
     (epoch_advance_wakeup_signals cb' = epoch_advance_wakeup_signals cb
        \<longleftrightarrow> \<not> epoch_before commit_epoch (get_current_global_epoch cb))"
  by (auto simp: wait_for_commit_def wakeup_epoch_advance_thread_def Let_def split: if_splits)

theorem wait_for_commit_signals_iff_before_witness:
  "wait_for_commit (\<lambda>e w. kErrorCodeTimeout)
     \<lparr>current_global_epoch = 5, epoch_advance_wakeup_signals = 2\<rparr> 3 1000
   = (kErrorCodeTimeout, \<lparr>current_global_epoch = 5, epoch_advance_wakeup_signals = 3\<rparr>) \<and>
   epoch_before 3 (get_current_global_epoch
     \<lparr>current_global_epoch = 5, epoch_advance_wakeup_signals = 2\<rparr>)"
proof -
  have run: "wait_for_commit (\<lambda>e w. kErrorCodeTimeout)
     \<lparr>current_global_epoch = 5, epoch_advance_wakeup_signals = 2\<rparr> 3 1000
   = (kErrorCodeTimeout, \<lparr>current_global_epoch = 5, epoch_advance_wakeup_signals = 3\<rparr>)"
    by (simp add: wait_for_commit_def wakeup_epoch_advance_thread_def Let_def
        get_current_global_epoch_def epoch_before_def)
  from wait_for_commit_signals_iff_before [OF run] show ?thesis
    using run by simp
qed

text \<open>
  The claim as stated, "signalled iff the commit epoch is greater than the current global
  epoch", fails both ways: with commit epoch 5 and global epoch 3 nothing is signalled, and
  with commit epoch 3 and global epoch 5 the thread is signalled.
\<close>

theorem wait_for_commit_greater_counterexample:
  "\<not> (epoch_advance_wakeup_signals
         (snd (wait_for_commit (\<lambda>e w. kErrorCodeOk)
                 \<lparr>current_global_epoch = 3, epoch_advance_wakeup_signals = 0\<rparr> 5 0)) = 1
       \<longleftrightarrow> epoch_before 3 5) \<and>
   \<not> (epoch_advance_wakeup_signals
         (snd (wait_for_commit (\<lambda>e w. kErrorCodeOk)
                 \<lparr>current_global_epoch = 5, epoch_advance_wakeup_signals = 0\<rparr> 3 0)) = 1
       \<longleftrightarrow> epoch_before 5 3)"
  by (simp add: wait_for_commit_def wakeup_epoch_advance_thread_def Let_def
      get_current_global_epoch_def epoch_before_def)

text \<open>
  Claim C6: on a context without an active transaction \<open>abort_xct\<close> returns
  \<open>kErrorCodeXctNoXct\<close> and the whole context (transaction, access sets, log buffer,
  shared memory) is as before; on an active transaction it returns success, the
  transaction is no longer active and the tail of the log buffer is back at the committed
  offset.
\<close>

theorem abort_xct_inactive_unchanged_active_discards:
  "(\<not> active (current_xct c) \<longrightarrow> abort_xct c = (kErrorCodeXctNoXct, c)) \<and>
   (active (current_xct c) \<longrightarrow>
      fst (abort_xct c) = kErrorCodeOk \<and>
      \<not> active (current_xct (snd (abort_xct c))) \<and>
      offset_tail (log_buffer (snd (abort_xct c))) = offset_committed (log_buffer c) \<and>
      offset_committed (log_buffer (snd (abort_xct c))) = offset_committed (log_buffer c) \<and>
      shared (snd (abort_xct c)) = shared c)"
  by (simp add: abort_xct_def deactivate_def discard_current_xct_log_def)

theorem abort_xct_inactive_unchanged_active_discards_witness:
  "active (current_xct example_context) \<and>
   fst (abort_xct example_context) = kErrorCodeOk \<and>
   offset_tail (log_buffer (snd (abort_xct example_context))) = 100 \<and>
   \<not> active (current_xct (snd (abort_xct example_context))) \<and>
   abort_xct (snd (abort_xct example_context))
     = (kErrorCodeXctNoXct, snd (abort_xct example_context))"
proof -
  have a: "active (current_xct example_context)"
    by (simp add: example_context_def example_xct_def)
  have c: "offset_committed (log_buffer example_context) = 100"
    by (simp add: example_context_def)
  from abort_xct_inactive_unchanged_active_discards [of example_context]
    abort_xct_inactive_unchanged_active_discards [of "snd (abort_xct example_context)"]
  show ?thesis using a c by simp
qed

section \<open>Evaluation on the concrete inputs\<close>

lemmas example_defs =
  example_ext_def example_memory_def example_xct_def example_context_def
  stale_pointer_context_def never_written_read_context_def two_reads_context_def
  moved_write_context_def example_write_set_def double_write_context_def

lemmas readonly_defs =
  precommit_xct_def precommit_xct_readonly_def precommit_xct_verify_readonly_def
  track_read_access_def is_moved_def xct_id_set_def epoch_store_max_def epoch_is_valid_def
  kEpochInvalid_def epoch_before_def deactivate_def discard_current_xct_log_def Let_def


lemmas readwrite_defs =
  precommit_xct_readwrite_def lock_input_def lock_round_def store_lock_state_def
  sort_write_set_def same_record_follows_def mcs_acquire_lock_def xct_id_store_max_def
  xct_id_before_def enter_commit_def leave_commit_def precommit_xct_verify_readwrite_def
  precommit_xct_apply_def issue_next_id_def clear_status_bits_def apply_writes_def
  apply_write_def set_log_xct_id_def set_owner_xct_id_def set_being_written_def
  mcs_release_lock_def set_owner_lock_def set_deleted_def publish_committed_log_def

section \<open>The locking rounds end once tracking settles\<close>

lemma is_moved_acquire [simp]:
  "mcs_acquire_lock m cur a = (b, m1, cur1) \<Longrightarrow> is_moved (owners m1 x) = is_moved (owners m x)"
  by (auto simp: mcs_acquire_lock_def set_owner_lock_def Let_def is_moved_def split: if_splits)

lemma lock_loop_no_retry:
  "\<forall>w\<in>set ws. \<not> is_moved (owners m (owner_id_address w)) \<Longrightarrow> n = length ws \<Longrightarrow>
   \<not> fst (lock_loop n i (m, ws, cur, mx))"
proof (induction n i "(m, ws, cur, mx)" arbitrary: m ws cur mx rule: lock_loop.induct)
  case (1 n i m ws cur mx)
  show ?case
  proof (cases "i < n")
    case False
    then show ?thesis by simp
  next
    case inb: True
    show ?thesis
    proof (cases "same_record_follows n ws i")
      case True
      with inb 1 show ?thesis by simp
    next
      case nf: False
      obtain b m1 cur1 where acq: "mcs_acquire_lock m cur (owner_id_address (ws ! i)) = (b, m1, cur1)"
        by (cases "mcs_acquire_lock m cur (owner_id_address (ws ! i))") auto
      let ?ws1 = "ws[i := (ws ! i)\<lparr>mcs_block := b\<rparr>]"
      have nm: "\<forall>w\<in>set ?ws1. \<not> is_moved (owners m1 (owner_id_address w))"
      proof
        fix w assume "w \<in> set ?ws1"
        then have "w = (ws ! i)\<lparr>mcs_block := b\<rparr> \<or> w \<in> set ws"
          using set_update_subset_insert [of ws i] by auto
        moreover have "ws ! i \<in> set ws" using inb 1(4) by simp
        ultimately show "\<not> is_moved (owners m1 (owner_id_address w))"
          using 1(3) acq by auto
      qed
      have here: "\<not> is_moved (owners m1 (owner_id_address (?ws1 ! i)))"
        using nm inb 1(4) by (metis length_list_update nth_mem)
      have "\<not> fst (lock_loop n (Suc i) (m1, ?ws1, cur1,
                xct_id_store_max mx (owner_xct_id (owners m1 (owner_id_address (?ws1 ! i))))))"
        using 1(2) [OF inb nf acq [symmetric] refl refl here nm] 1(4) by simp
      then show ?thesis using inb nf acq here by (simp add: Let_def)
    qed
  qed
qed


lemma set_sort_write_set [simp]: "set (sort_write_set ws) = set ws"
  by (simp add: sort_write_set_def)

lemma length_sort_write_set [simp]: "length (sort_write_set ws) = length ws"
  by (simp add: sort_write_set_def)

lemma lock_round_settled:
  assumes "tracking_settles ext m ws"
  shows "\<not> fst (snd (lock_round ext (m, ws, cur, mx)))"
proof (cases "track_moved_pass ext m ws")
  case (Pair tracked ws')
  show ?thesis
  proof (cases tracked)
    case False
    with Pair show ?thesis by (simp add: lock_round_def)
  next
    case True
    with Pair assms have "\<forall>w\<in>set (sort_write_set ws'). \<not> is_moved (owners m (owner_id_address w))"
      by (simp add: tracking_settles_def)
    from lock_loop_no_retry [OF this, of "length ws'" 0 cur mx]
    have "\<not> fst (lock_loop (length ws') 0 (m, sort_write_set ws', cur, mx))" by simp
    with Pair True show ?thesis
      by (simp add: lock_round_def split: prod.splits)
  qed
qed

lemma precommit_xct_lock_settled:
  assumes "tracking_settles ext m ws"
  shows "precommit_xct_lock ext (m, ws, cur, mx) =
           Some (fst (lock_round ext (m, ws, cur, mx)), snd (snd (lock_round ext (m, ws, cur, mx))))"
  using lock_round_settled [OF assms, of cur mx]
  by (subst precommit_xct_lock.simps) (simp add: Let_def)

lemma log_buffer_verify_readonly [simp]:
  "log_buffer (fst (snd (precommit_xct_verify_readonly ext c e))) = log_buffer c"
  by (simp add: precommit_xct_verify_readonly_def Let_def split: prod.splits)

lemma log_buffer_verify_readwrite [simp]:
  "log_buffer (fst (snd (precommit_xct_verify_readwrite ext c x))) = log_buffer c"
  by (simp add: precommit_xct_verify_readwrite_def Let_def split: prod.splits)

lemma log_buffer_store_lock_state [simp]: "log_buffer (store_lock_state c s) = log_buffer c"
  by (simp add: store_lock_state_def split: prod.splits)

lemma log_buffer_enter_commit [simp]: "log_buffer (enter_commit c) = log_buffer c"
  by (simp add: enter_commit_def)

lemma log_buffer_leave_commit [simp]: "log_buffer (leave_commit c) = log_buffer c"
  by (simp add: leave_commit_def)

lemma readwrite_failure_keeps_log_buffer:
  assumes "precommit_xct_readwrite ext c e0 = Some (False, c', e)"
  shows "log_buffer c' = log_buffer c"
proof -
  from assms obtain ok s where lk: "precommit_xct_lock ext (lock_input ext c) = Some (ok, s)"
    by (auto simp: precommit_xct_readwrite_def split: option.splits)
  show ?thesis
  proof (cases ok)
    case False
    with assms lk show ?thesis by (auto simp: precommit_xct_readwrite_def)
  next
    case True
    obtain v c3 x where ver:
      "precommit_xct_verify_readwrite ext (enter_commit (store_lock_state c s)) (snd (snd (snd s)))
         = (v, c3, x)"
      by (cases "precommit_xct_verify_readwrite ext (enter_commit (store_lock_state c s))
                   (snd (snd (snd s)))") auto
    have lb: "log_buffer c3 = log_buffer c"
      using log_buffer_verify_readwrite [of ext "enter_commit (store_lock_state c s)"
          "snd (snd (snd s))"] ver by simp
    from assms lk True ver have "\<not> v"
      by (auto simp: precommit_xct_readwrite_def Let_def split: if_splits)
    with assms lk True ver lb show ?thesis
      by (auto simp: precommit_xct_readwrite_def Let_def split: prod.splits)
  qed
qed

lemma precommit_xct_lock_returns:
  assumes "tracking_settles ext (shared c) (write_set (current_xct c))"
  shows "\<exists>ok s. precommit_xct_lock ext (lock_input ext c) = Some (ok, s)"
  unfolding lock_input_def using precommit_xct_lock_settled [OF assms] by blast

lemma active_deactivate [simp]: "\<not> active (deactivate x)"
  by (simp add: deactivate_def)

section \<open>Properties of precommit_xct\<close>

text \<open>
  Claim C9: whenever \<open>precommit_xct\<close> returns \<open>kErrorCodeXctRaceAbort\<close>, the log
  buffer of the thread has lost its uncommitted tail: the tail offset equals the committed
  offset, which is where it was before the call, and a following \<open>begin_xct\<close> is
  accepted.
\<close>

theorem precommit_xct_race_abort_discards_log:
  assumes "precommit_xct ext c e0 = Some (kErrorCodeXctRaceAbort, c', e)"
  shows "offset_tail (log_buffer c') = offset_committed (log_buffer c') \<and>
         offset_committed (log_buffer c') = offset_committed (log_buffer c) \<and>
         fst (begin_xct level c') = kErrorCodeOk"
proof -
  from assms have act: "active (current_xct c)"
    by (auto simp: precommit_xct_def split: if_splits)
  let ?r = "if is_read_only ext (current_xct c) then Some (precommit_xct_readonly ext c)
            else precommit_xct_readwrite ext c e0"
  from assms act obtain c1 where r: "?r = Some (False, c1, e)"
    and c': "c' = c1\<lparr>current_xct := deactivate (current_xct c1),
                     log_buffer := discard_current_xct_log (log_buffer c1)\<rparr>"
    by (auto simp: precommit_xct_def Let_def split: option.splits if_splits)
  have "log_buffer c1 = log_buffer c"
  proof (cases "is_read_only ext (current_xct c)")
    case True
    with r have "precommit_xct_verify_readonly ext c kEpochInvalid = (False, c1, e)"
      by (simp add: precommit_xct_readonly_def)
    with log_buffer_verify_readonly [of ext c kEpochInvalid] show ?thesis by simp
  next
    case False
    with r show ?thesis by (simp add: readwrite_failure_keeps_log_buffer)
  qed
  with c' show ?thesis
    by (simp add: discard_current_xct_log_def begin_xct_def deactivate_def)
qed

theorem precommit_xct_race_abort_discards_log_witness:
  "\<exists>c' e. precommit_xct example_ext stale_pointer_context 0
              = Some (kErrorCodeXctRaceAbort, c', e) \<and>
          offset_tail (log_buffer c') = 100 \<and> offset_committed (log_buffer c') = 100 \<and>
          fst (begin_xct kSerializable c') = kErrorCodeOk"
proof -
  have "map_option fst (precommit_xct example_ext stale_pointer_context 0)
          = Some kErrorCodeXctRaceAbort"
    by (simp add: example_defs readonly_defs)
  then obtain c' e where run:
    "precommit_xct example_ext stale_pointer_context 0 = Some (kErrorCodeXctRaceAbort, c', e)"
    by auto
  have "offset_committed (log_buffer stale_pointer_context) = 100"
    by (simp add: example_defs)
  with precommit_xct_race_abort_discards_log [OF run, of kSerializable] run
  show ?thesis by simp
qed




section \<open>Epochs within a window of the cyclic order\<close>

lemma word_window_less:
  fixes a b :: "32 word"
  assumes "a < 2 ^ 31" "b < 2 ^ 31"
  shows "(b - a \<noteq> 0 \<and> b - a < 2 ^ 31) \<longleftrightarrow> a < b"
proof -
  have ua: "uint a < 2147483648" and ub: "uint b < 2147483648"
    using assms by (simp_all add: word_less_alt)
  have pa: "0 \<le> uint a" and pb: "0 \<le> uint b" by simp_all
  have sub: "uint (b - a) = (if uint a \<le> uint b then uint b - uint a else uint b - uint a + 4294967296)"
    by (simp add: uint_sub_if')
  have nz: "b - a \<noteq> 0 \<longleftrightarrow> uint a \<noteq> uint b"
    by (metis right_minus_eq word_uint_eq_iff)
  have lt: "b - a < 2 ^ 31 \<longleftrightarrow> uint (b - a) < 2147483648"
    by (simp add: word_less_alt)
  have "(uint a \<noteq> uint b \<and> uint (b - a) < 2147483648) \<longleftrightarrow> uint a < uint b"
  proof -
    have "\<And>p q :: int. 0 \<le> p \<Longrightarrow> p < 2147483648 \<Longrightarrow> 0 \<le> q \<Longrightarrow> q < 2147483648 \<Longrightarrow>
            (p \<noteq> q \<and> (if p \<le> q then q - p else q - p + 4294967296) < 2147483648) \<longleftrightarrow> p < q"
      by auto
    from this [OF pa ua pb ub] show ?thesis unfolding sub .
  qed
  then show ?thesis
    unfolding nz lt by (simp add: word_less_alt)
qed

lemma epoch_before_window:
  assumes "x - base < 2 ^ 31" "y - base < 2 ^ 31"
  shows "epoch_before x y \<longleftrightarrow> x - base < y - base"
proof -
  have "y - x = (y - base) - (x - base)" by simp
  then show ?thesis
    unfolding epoch_before_def using word_window_less [OF assms] by simp
qed

lemma observed_track_read_access [simp]:
  "observed_owner_id (track_read_access ext m a) = observed_owner_id a"
  by (simp add: track_read_access_def)

lemma verify_readonly_read_set_epoch:
  "verify_readonly_read_set ext m rs e0 = (True, rs', e) \<Longrightarrow>
   e = foldl epoch_store_max e0 (map (\<lambda>a. xid_epoch (observed_owner_id a)) rs)"
proof (induction rs arbitrary: e0 rs' e)
  case Nil
  then show ?case by simp
next
  case (Cons a rs)
  then show ?case
    by (auto simp: Let_def split: if_splits prod.splits)
qed

lemma foldl_store_max_window:
  assumes "epoch_is_valid v" "v - base < 2 ^ 31"
    and "\<forall>x\<in>set es. epoch_is_valid x \<and> x - base < 2 ^ 31"
  shows "foldl epoch_store_max v es \<in> set (v # es) \<and>
         (\<forall>x\<in>set (v # es). x - base \<le> foldl epoch_store_max v es - base)"
  using assms
proof (induction es arbitrary: v)
  case Nil
  then show ?case by simp
next
  case (Cons x es)
  let ?v' = "epoch_store_max v x"
  have xw: "x - base < 2 ^ 31" and xv: "epoch_is_valid x" using Cons.prems by simp_all
  have v': "?v' = (if v - base < x - base then x else v)"
    using Cons.prems(1) epoch_before_window [OF Cons.prems(2) xw]
    by (simp add: epoch_store_max_def)
  have "epoch_is_valid ?v'" "?v' - base < 2 ^ 31"
    using v' xw xv Cons.prems by auto
  from Cons.IH [OF this] Cons.prems
  have ih: "foldl epoch_store_max ?v' es \<in> set (?v' # es)"
       "\<forall>y\<in>set (?v' # es). y - base \<le> foldl epoch_store_max ?v' es - base"
    by auto
  have "v - base \<le> ?v' - base" "x - base \<le> ?v' - base"
    using v' by auto
  with ih show ?case
    using v' by (auto split: if_splits)
qed

lemma foldl_store_max_invalid:
  "\<not> epoch_is_valid v \<Longrightarrow> \<forall>x\<in>set es. \<not> epoch_is_valid x \<Longrightarrow>
   \<not> epoch_is_valid (foldl epoch_store_max v es)"
  by (induction es arbitrary: v) (auto simp: epoch_store_max_def)

lemma verify_readonly_read_set_Nil [simp]:
  "verify_readonly_read_set ext m [] e = (True, [], e)"
  by simp

section \<open>The commit epoch of a read-only transaction\<close>

text \<open>
  Claim C4, as the code has it. A read-only \<open>precommit_xct\<close> on an active transaction
  returns. With an empty read set the commit epoch is the durable global epoch, and the
  commit succeeds exactly when the pointer set and the page version set verify. With a
  non-empty read set that passes verification, whose observed epochs are all valid and lie
  within one half of the cyclic order (less than \<open>2^31\<close> after some base), the commit
  epoch is one of the observed epochs and none of them is after it: it is their maximum.
  When verification passes and no observed epoch is valid, the commit epoch is the durable
  global epoch.
\<close>

theorem precommit_xct_readonly_commit_epoch:
  assumes "active (current_xct c)" and "is_read_only ext (current_xct c)"
  shows "\<exists>rc c' e. precommit_xct ext c e0 = Some (rc, c', e) \<and>
     (read_set (current_xct c) = [] \<longrightarrow>
        e = durable_global_epoch c \<and>
        (rc = kErrorCodeOk \<longleftrightarrow>
           precommit_xct_verify_pointer_set (shared c) (pointer_set (current_xct c)) \<and>
           precommit_xct_verify_page_version_set (shared c)
             (page_version_set (current_xct c)))) \<and>
     (rc = kErrorCodeOk \<and> read_set (current_xct c) \<noteq> [] \<and>
      (\<forall>a\<in>set (read_set (current_xct c)).
          epoch_is_valid (xid_epoch (observed_owner_id a)) \<and>
          xid_epoch (observed_owner_id a) - base < 2 ^ 31) \<longrightarrow>
        e \<in> (\<lambda>a. xid_epoch (observed_owner_id a)) ` set (read_set (current_xct c)) \<and>
        (\<forall>a\<in>set (read_set (current_xct c)).
           \<not> epoch_before e (xid_epoch (observed_owner_id a)))) \<and>
     (rc = kErrorCodeOk \<and>
      (\<forall>a\<in>set (read_set (current_xct c)).
          \<not> epoch_is_valid (xid_epoch (observed_owner_id a))) \<longrightarrow>
        e = durable_global_epoch c)"
proof -
  let ?rs = "read_set (current_xct c)"
  let ?es = "map (\<lambda>a. xid_epoch (observed_owner_id a)) ?rs"
  obtain ok rs' e1 where loop:
    "verify_readonly_read_set ext (shared c) ?rs kEpochInvalid = (ok, rs', e1)"
    by (cases "verify_readonly_read_set ext (shared c) ?rs kEpochInvalid") auto
  obtain v c1 e where ver: "precommit_xct_verify_readonly ext c kEpochInvalid = (v, c1, e)"
    by (cases "precommit_xct_verify_readonly ext c kEpochInvalid") auto
  let ?rc = "if v then kErrorCodeOk else kErrorCodeXctRaceAbort"
  from assms ver obtain c' where run: "precommit_xct ext c e0 = Some (?rc, c', e)"
    by (cases v) (simp_all add: precommit_xct_def precommit_xct_readonly_def Let_def)
  have inv0: "\<not> epoch_is_valid kEpochInvalid"
    by (simp add: epoch_is_valid_def)
  have e_ok: "v \<Longrightarrow> ok \<and> e = (if \<not> epoch_is_valid e1 then durable_global_epoch c else e1)"
    using ver loop
    by (auto simp: precommit_xct_verify_readonly_def Let_def split: if_splits)
  have folded: "e1 = foldl epoch_store_max kEpochInvalid ?es" if v
  proof -
    from e_ok [OF that] loop
    have "verify_readonly_read_set ext (shared c) ?rs kEpochInvalid = (True, rs', e1)" by simp
    then show ?thesis by (rule verify_readonly_read_set_epoch)
  qed
  have empty: "?rs = [] \<Longrightarrow>
      e = durable_global_epoch c \<and>
      (v \<longleftrightarrow> precommit_xct_verify_pointer_set (shared c) (pointer_set (current_xct c)) \<and>
             precommit_xct_verify_page_version_set (shared c)
               (page_version_set (current_xct c)))"
    using ver inv0
    by (auto simp: precommit_xct_verify_readonly_def Let_def split: if_splits)
  have window: "e \<in> set ?es \<and> (\<forall>x\<in>set ?es. \<not> epoch_before e x)"
    if v: v and ne: "?rs \<noteq> []"
      and w: "\<forall>a\<in>set ?rs. epoch_is_valid (xid_epoch (observed_owner_id a)) \<and>
                xid_epoch (observed_owner_id a) - base < 2 ^ 31"
  proof -
    from ne obtain a rest where rs: "?rs = a # rest" by (cases ?rs) auto
    let ?x = "xid_epoch (observed_owner_id a)"
    let ?rest = "map (\<lambda>a. xid_epoch (observed_owner_id a)) rest"
    from folded [OF v] have e1: "e1 = foldl epoch_store_max ?x ?rest"
      using rs inv0 by (simp add: epoch_store_max_def)
    have xv: "epoch_is_valid ?x" "?x - base < 2 ^ 31" using w rs by auto
    have restw: "\<forall>x\<in>set ?rest. epoch_is_valid x \<and> x - base < 2 ^ 31" using w rs by auto
    from foldl_store_max_window [OF xv restw] e1
    have mem: "e1 \<in> set ?es" and top: "\<forall>x\<in>set ?es. x - base \<le> e1 - base"
      using rs by auto
    have ev: "epoch_is_valid e1" "e1 - base < 2 ^ 31" using mem w by auto
    then have "e = e1" using e_ok [OF v] by simp
    moreover have "\<not> epoch_before e1 x" if "x \<in> set ?es" for x
    proof -
      from that w have "x - base < 2 ^ 31" by auto
      from epoch_before_window [OF ev(2) this] top that show ?thesis by auto
    qed
    ultimately show ?thesis using mem by auto
  qed
  have invalid: "e = durable_global_epoch c"
    if v: v and w: "\<forall>a\<in>set ?rs. \<not> epoch_is_valid (xid_epoch (observed_owner_id a))"
  proof -
    from folded [OF v] foldl_store_max_invalid [OF inv0, of ?es] w have "\<not> epoch_is_valid e1" by simp
    with e_ok [OF v] show ?thesis by simp
  qed
  have rcv: "?rc = kErrorCodeOk \<longleftrightarrow> v" by simp
  show ?thesis
    apply (rule exI [of _ ?rc], rule exI [of _ c'], rule exI [of _ e])
    apply (intro conjI impI)
        apply (rule run)
    using empty apply blast
    using empty rcv apply blast
    using window rcv apply (metis (no_types, lifting) image_set)
    using window rcv apply (metis (no_types, lifting) image_eqI image_set)
    using invalid rcv apply blast
    done
qed

theorem precommit_xct_readonly_commit_epoch_witness:
  "active (current_xct two_reads_context) \<and>
   is_read_only example_ext (current_xct two_reads_context) \<and>
   map (\<lambda>a. xid_epoch (observed_owner_id a)) (read_set (current_xct two_reads_context))
     = [3, 3] \<and>
   (\<exists>c'. precommit_xct example_ext two_reads_context 0 = Some (kErrorCodeOk, c', 3)) \<and>
   3 \<in> (\<lambda>a. xid_epoch (observed_owner_id a)) ` set (read_set (current_xct two_reads_context))"
proof -
  have act: "active (current_xct two_reads_context)"
    and ro: "is_read_only example_ext (current_xct two_reads_context)"
    by (simp_all add: example_defs)
  have w: "\<forall>a\<in>set (read_set (current_xct two_reads_context)).
      epoch_is_valid (xid_epoch (observed_owner_id a)) \<and>
      xid_epoch (observed_owner_id a) - 1 < 2 ^ 31"
    by (simp add: example_defs xct_id_set_def epoch_is_valid_def kEpochInvalid_def)
  have run: "map_option (\<lambda>r. (fst r, snd (snd r)))
               (precommit_xct example_ext two_reads_context 0) = Some (kErrorCodeOk, 3)"
    by (simp add: example_defs readonly_defs)
  from precommit_xct_readonly_commit_epoch [OF act ro, of 0 1] obtain rc c' e
    where r: "precommit_xct example_ext two_reads_context 0 = Some (rc, c', e)"
      and m: "rc = kErrorCodeOk \<and> read_set (current_xct two_reads_context) \<noteq> [] \<and>
        (\<forall>a\<in>set (read_set (current_xct two_reads_context)).
          epoch_is_valid (xid_epoch (observed_owner_id a)) \<and>
          xid_epoch (observed_owner_id a) - 1 < 2 ^ 31) \<longrightarrow>
        e \<in> (\<lambda>a. xid_epoch (observed_owner_id a)) `
              set (read_set (current_xct two_reads_context))"
    by blast
  from r run have rc: "rc = kErrorCodeOk" and e: "e = 3" by simp_all
  have ne: "read_set (current_xct two_reads_context) \<noteq> []" by (simp add: example_defs)
  from m rc ne w have "e \<in> (\<lambda>a. xid_epoch (observed_owner_id a)) `
      set (read_set (current_xct two_reads_context))" by simp
  with e have mem: "3 \<in> (\<lambda>a. xid_epoch (observed_owner_id a)) `
      set (read_set (current_xct two_reads_context))" by simp
  from r rc e have "\<exists>c'. precommit_xct example_ext two_reads_context 0
      = Some (kErrorCodeOk, c', 3)" by simp
  moreover have "map (\<lambda>a. xid_epoch (observed_owner_id a))
      (read_set (current_xct two_reads_context)) = [3, 3]"
    by (simp add: example_defs xct_id_set_def)
  ultimately show ?thesis using act ro mem by simp
qed

text \<open>
  The claim as stated fails in both halves. The read-only transaction with an empty read
  set and a pointer that has changed does not succeed. The read-only transaction whose read
  set holds the never-written record (observed epoch 0, invalid) passes verification and
  gets the durable global epoch 4, which is not among its observed epochs.
\<close>

theorem precommit_xct_readonly_commit_epoch_counterexample:
  "(active (current_xct stale_pointer_context) \<and>
    is_read_only example_ext (current_xct stale_pointer_context) \<and>
    read_set (current_xct stale_pointer_context) = [] \<and>
    map_option fst (precommit_xct example_ext stale_pointer_context 0)
      = Some kErrorCodeXctRaceAbort) \<and>
   (active (current_xct never_written_read_context) \<and>
    is_read_only example_ext (current_xct never_written_read_context) \<and>
    map (\<lambda>a. xid_epoch (observed_owner_id a))
      (read_set (current_xct never_written_read_context)) = [0] \<and>
    map_option (\<lambda>r. (fst r, snd (snd r)))
      (precommit_xct example_ext never_written_read_context 0) = Some (kErrorCodeOk, 4))"
  by (simp add: example_defs readonly_defs)

section \<open>The partitioner registry keeps one partitioner per storage\<close>

lemma gleaner_inv_initial: "gleaner_inv initial_gleaner"
  by (simp add: gleaner_inv_def initial_gleaner_def registered_live_def
      returned_registered_def speculative_private_def no_leak_def)

lemma step_Call:
  "gleaner_step (Call c storage) g =
     (if calls g c = NotCalled
      then g\<lparr>calls := (calls g)(c := BeforeFirstLookup storage)\<rparr> else g)"
  by (simp add: gleaner_step_def)

lemma step_first_hit:
  "calls g c = BeforeFirstLookup storage \<Longrightarrow> partitioners g storage = Some p \<Longrightarrow>
   gleaner_step (Step c fresh) g = g\<lparr>calls := (calls g)(c := Returned storage p)\<rparr>"
  by (simp add: gleaner_step_def)

lemma step_first_miss:
  "calls g c = BeforeFirstLookup storage \<Longrightarrow> partitioners g storage = None \<Longrightarrow>
   gleaner_step (Step c fresh) g = g\<lparr>calls := (calls g)(c := BeforeCreate storage)\<rparr>"
  by (simp add: gleaner_step_def)

lemma step_create:
  "calls g c = BeforeCreate storage \<Longrightarrow>
   gleaner_step (Step c fresh) g =
     (if fresh = 0 \<or> fresh \<in> live_partitioners g then g
      else g\<lparr>live_partitioners := insert fresh (live_partitioners g),
             calls := (calls g)(c := BeforeSecondLookup storage fresh)\<rparr>)"
  by (simp add: gleaner_step_def)

lemma step_second_lost:
  "calls g c = BeforeSecondLookup storage p \<Longrightarrow> partitioners g storage = Some q \<Longrightarrow>
   gleaner_step (Step c fresh) g =
     g\<lparr>live_partitioners := live_partitioners g - {p},
       calls := (calls g)(c := Returned storage q)\<rparr>"
  by (simp add: gleaner_step_def)

lemma step_second_won:
  "calls g c = BeforeSecondLookup storage p \<Longrightarrow> partitioners g storage = None \<Longrightarrow>
   gleaner_step (Step c fresh) g =
     g\<lparr>partitioners := (partitioners g)(storage := Some p),
       calls := (calls g)(c := Returned storage p)\<rparr>"
  by (simp add: gleaner_step_def)

lemma step_idle:
  "calls g c = NotCalled \<or> calls g c = Returned storage p \<Longrightarrow>
   gleaner_step (Step c fresh) g = g"
  by (auto simp: gleaner_step_def)

lemma inv_Call:
  assumes "gleaner_inv g"
  shows "gleaner_inv (gleaner_step (Call c storage) g)"
proof (cases "calls g c = NotCalled")
  case False
  with assms show ?thesis by (simp add: step_Call)
next
  case True
  let ?g = "g\<lparr>calls := (calls g)(c := BeforeFirstLookup storage)\<rparr>"
  have 1: "registered_live ?g" using assms by (simp add: gleaner_inv_def registered_live_def)
  have 2: "returned_registered ?g"
    using assms by (simp add: gleaner_inv_def returned_registered_def)
  have 3: "speculative_private ?g"
    using assms True unfolding gleaner_inv_def speculative_private_def
    by simp
  have 4: "no_leak ?g"
    using assms True unfolding gleaner_inv_def no_leak_def
    by (simp; metis call_point.distinct(5))
  from 1 2 3 4 True show ?thesis by (simp add: step_Call gleaner_inv_def)
qed


lemma inv_first_lookup:
  assumes inv: "gleaner_inv g" and at: "calls g c = BeforeFirstLookup storage"
  shows "gleaner_inv (gleaner_step (Step c fresh) g)"
proof (cases "partitioners g storage")
  case None
  let ?g = "g\<lparr>calls := (calls g)(c := BeforeCreate storage)\<rparr>"
  have 1: "registered_live ?g" using inv by (simp add: gleaner_inv_def registered_live_def)
  have 2: "returned_registered ?g"
    using inv by (simp add: gleaner_inv_def returned_registered_def)
  have 3: "speculative_private ?g"
    using inv at unfolding gleaner_inv_def speculative_private_def
    by (simp; metis call_point.distinct(11))
  have 4: "no_leak ?g"
    using inv at unfolding gleaner_inv_def no_leak_def
    by (simp; metis call_point.distinct(11))
  from 1 2 3 4 show ?thesis by (simp add: step_first_miss [OF at None] gleaner_inv_def)
next
  case (Some p)
  let ?g = "g\<lparr>calls := (calls g)(c := Returned storage p)\<rparr>"
  have 1: "registered_live ?g" using inv by (simp add: gleaner_inv_def registered_live_def)
  have 2: "returned_registered ?g"
    using inv Some by (simp add: gleaner_inv_def returned_registered_def)
  have 3: "speculative_private ?g"
    using inv at unfolding gleaner_inv_def speculative_private_def
    by (simp; metis call_point.distinct(11))
  have 4: "no_leak ?g"
    using inv at unfolding gleaner_inv_def no_leak_def
    by (simp; metis call_point.distinct(11))
  from 1 2 3 4 show ?thesis by (simp add: step_first_hit [OF at Some] gleaner_inv_def)
qed

lemma inv_create:
  assumes inv: "gleaner_inv g" and at: "calls g c = BeforeCreate storage"
  shows "gleaner_inv (gleaner_step (Step c fresh) g)"
proof (cases "fresh = 0 \<or> fresh \<in> live_partitioners g")
  case True
  with inv show ?thesis by (simp add: step_create [OF at])
next
  case False
  let ?g = "g\<lparr>live_partitioners := insert fresh (live_partitioners g),
             calls := (calls g)(c := BeforeSecondLookup storage fresh)\<rparr>"
  have rl: "registered_live g" and sp: "speculative_private g" and nl: "no_leak g"
    and rr: "returned_registered g"
    using inv by (simp_all add: gleaner_inv_def)
  have 1: "registered_live ?g" using rl by (simp add: registered_live_def)
  have 2: "returned_registered ?g" using rr by (simp add: returned_registered_def)
  have notreg: "partitioners g s \<noteq> Some fresh" for s
    using rl False by (auto simp: registered_live_def)
  have notspec: "calls g c' \<noteq> BeforeSecondLookup s fresh" for c' s
    using sp False by (auto simp: speculative_private_def)
  have 3: "speculative_private ?g"
    unfolding speculative_private_def
  proof (intro allI impI)
    fix c0 s0 p0 assume a: "calls ?g c0 = BeforeSecondLookup s0 p0"
    show "p0 \<in> live_partitioners ?g \<and> p0 \<noteq> 0 \<and>
          (\<forall>storage'. partitioners ?g storage' \<noteq> Some p0) \<and>
          (\<forall>c' storage'. calls ?g c' = BeforeSecondLookup storage' p0 \<longrightarrow> c' = c0)"
    proof (cases "c0 = c")
      case True
      with a have "p0 = fresh" by simp
      with True False notreg notspec show ?thesis by auto
    next
      case ne: False
      with a have old: "calls g c0 = BeforeSecondLookup s0 p0" by simp
      with sp have o: "p0 \<in> live_partitioners g" "p0 \<noteq> 0"
        "\<forall>storage'. partitioners g storage' \<noteq> Some p0"
        "\<forall>c' storage'. calls g c' = BeforeSecondLookup storage' p0 \<longrightarrow> c' = c0"
        unfolding speculative_private_def by blast+
      from o(1) False have "p0 \<noteq> fresh" by auto
      with o show ?thesis by auto
    qed
  qed
  have 4: "no_leak ?g"
    unfolding no_leak_def
  proof
    fix q assume "q \<in> live_partitioners ?g"
    then consider "q = fresh" | "q \<in> live_partitioners g" by auto
    then show "(\<exists>storage. partitioners ?g storage = Some q) \<or>
               (\<exists>c storage. calls ?g c = BeforeSecondLookup storage q)"
    proof cases
      case 1
      then have "calls ?g c = BeforeSecondLookup storage q" by simp
      then show ?thesis by blast
    next
      case 2
      with nl consider s where "partitioners g s = Some q"
        | c0 s0 where "calls g c0 = BeforeSecondLookup s0 q"
        unfolding no_leak_def by blast
      then show ?thesis
      proof cases
        case 1
        then show ?thesis by auto
      next
        case 2
        with at have "c0 \<noteq> c" by auto
        with 2 have "calls ?g c0 = BeforeSecondLookup s0 q" by simp
        then show ?thesis by blast
      qed
    qed
  qed
  from 1 2 3 4 False show ?thesis by (simp add: step_create [OF at] gleaner_inv_def)
qed


lemma inv_second_lookup:
  assumes inv: "gleaner_inv g" and at: "calls g c = BeforeSecondLookup storage p"
  shows "gleaner_inv (gleaner_step (Step c fresh) g)"
proof -
  have rl: "registered_live g" and sp: "speculative_private g" and nl: "no_leak g"
    and rr: "returned_registered g"
    using inv by (simp_all add: gleaner_inv_def)
  from sp at have mine: "p \<in> live_partitioners g" "p \<noteq> 0"
    "\<And>s. partitioners g s \<noteq> Some p"
    "\<And>c' s. calls g c' = BeforeSecondLookup s p \<Longrightarrow> c' = c"
    unfolding speculative_private_def by blast+
  show ?thesis
  proof (cases "partitioners g storage")
    case None
    let ?g = "g\<lparr>partitioners := (partitioners g)(storage := Some p),
               calls := (calls g)(c := Returned storage p)\<rparr>"
    have 1: "registered_live ?g"
      using rl mine by (simp add: registered_live_def)
    have 2: "returned_registered ?g"
      using rr None by (auto simp: returned_registered_def)
    have 3: "speculative_private ?g"
      unfolding speculative_private_def
    proof (intro allI impI)
      fix c0 s0 p0 assume a: "calls ?g c0 = BeforeSecondLookup s0 p0"
      then have ne: "c0 \<noteq> c" by auto
      with a have old: "calls g c0 = BeforeSecondLookup s0 p0" by simp
      with sp have o: "p0 \<in> live_partitioners g" "p0 \<noteq> 0"
        "\<forall>storage'. partitioners g storage' \<noteq> Some p0"
        "\<forall>c' storage'. calls g c' = BeforeSecondLookup storage' p0 \<longrightarrow> c' = c0"
        unfolding speculative_private_def by blast+
      from old ne mine(4) have "p0 \<noteq> p" by blast
      with o show "p0 \<in> live_partitioners ?g \<and> p0 \<noteq> 0 \<and>
          (\<forall>storage'. partitioners ?g storage' \<noteq> Some p0) \<and>
          (\<forall>c' storage'. calls ?g c' = BeforeSecondLookup storage' p0 \<longrightarrow> c' = c0)"
        by auto
    qed
    have 4: "no_leak ?g"
      unfolding no_leak_def
    proof
      fix q assume "q \<in> live_partitioners ?g"
      then have "q \<in> live_partitioners g" by simp
      with nl consider s where "partitioners g s = Some q"
        | c0 s0 where "calls g c0 = BeforeSecondLookup s0 q"
        unfolding no_leak_def by blast
      then show "(\<exists>storage. partitioners ?g storage = Some q) \<or>
                 (\<exists>c storage. calls ?g c = BeforeSecondLookup storage q)"
      proof cases
        case 1
        with None have "s \<noteq> storage" by auto
        with 1 have "partitioners ?g s = Some q" by simp
        then show ?thesis by blast
      next
        case 2
        show ?thesis
        proof (cases "c0 = c")
          case True
          with 2 at have "q = p" by simp
          then have "partitioners ?g storage = Some q" by simp
          then show ?thesis by blast
        next
          case False
          with 2 have "calls ?g c0 = BeforeSecondLookup s0 q" by simp
          then show ?thesis by blast
        qed
      qed
    qed
    from 1 2 3 4 show ?thesis by (simp add: step_second_won [OF at None] gleaner_inv_def)
  next
    case (Some q)
    let ?g = "g\<lparr>live_partitioners := live_partitioners g - {p},
               calls := (calls g)(c := Returned storage q)\<rparr>"
    have 1: "registered_live ?g"
      using rl mine(3) by (auto simp: registered_live_def)
    have 2: "returned_registered ?g"
      using rr Some by (auto simp: returned_registered_def)
    have 3: "speculative_private ?g"
      unfolding speculative_private_def
    proof (intro allI impI)
      fix c0 s0 p0 assume a: "calls ?g c0 = BeforeSecondLookup s0 p0"
      then have ne: "c0 \<noteq> c" by auto
      with a have old: "calls g c0 = BeforeSecondLookup s0 p0" by simp
      with sp have o: "p0 \<in> live_partitioners g" "p0 \<noteq> 0"
        "\<forall>storage'. partitioners g storage' \<noteq> Some p0"
        "\<forall>c' storage'. calls g c' = BeforeSecondLookup storage' p0 \<longrightarrow> c' = c0"
        unfolding speculative_private_def by blast+
      from old ne mine(4) have "p0 \<noteq> p" by blast
      with o show "p0 \<in> live_partitioners ?g \<and> p0 \<noteq> 0 \<and>
          (\<forall>storage'. partitioners ?g storage' \<noteq> Some p0) \<and>
          (\<forall>c' storage'. calls ?g c' = BeforeSecondLookup storage' p0 \<longrightarrow> c' = c0)"
        by auto
    qed
    have 4: "no_leak ?g"
      unfolding no_leak_def
    proof
      fix x assume x: "x \<in> live_partitioners ?g"
      then have xl: "x \<in> live_partitioners g" and xp: "x \<noteq> p" by auto
      with nl consider s where "partitioners g s = Some x"
        | c0 s0 where "calls g c0 = BeforeSecondLookup s0 x"
        unfolding no_leak_def by blast
      then show "(\<exists>storage. partitioners ?g storage = Some x) \<or>
                 (\<exists>c storage. calls ?g c = BeforeSecondLookup storage x)"
      proof cases
        case 1
        then show ?thesis by auto
      next
        case 2
        with at xp have "c0 \<noteq> c" by auto
        with 2 have "calls ?g c0 = BeforeSecondLookup s0 x" by simp
        then show ?thesis by blast
      qed
    qed
    from 1 2 3 4 show ?thesis by (simp add: step_second_lost [OF at Some] gleaner_inv_def)
  qed
qed

lemma gleaner_inv_step:
  assumes "gleaner_inv g"
  shows "gleaner_inv (gleaner_step ev g)"
proof (cases ev)
  case (Call c storage)
  with assms show ?thesis by (simp add: inv_Call)
next
  case (Step c fresh)
  show ?thesis
  proof (cases "calls g c")
    case NotCalled
    with Step assms show ?thesis by (simp add: step_idle)
  next
    case (BeforeFirstLookup storage)
    with Step assms show ?thesis by (simp add: inv_first_lookup)
  next
    case (BeforeCreate storage)
    with Step assms show ?thesis by (simp add: inv_create)
  next
    case (BeforeSecondLookup storage p)
    with Step assms show ?thesis by (simp add: inv_second_lookup)
  next
    case (Returned storage p)
    with Step assms show ?thesis by (simp add: step_idle)
  qed
qed

lemma gleaner_inv_run: "gleaner_inv g \<Longrightarrow> gleaner_inv (gleaner_run evs g)"
  unfolding gleaner_run_def
  by (induction evs arbitrary: g) (simp_all add: gleaner_inv_step)

lemma returned_stays_step:
  "calls g c = Returned storage p \<Longrightarrow> calls (gleaner_step ev g) c = Returned storage p"
  by (cases ev) (auto simp: gleaner_step_def split: call_point.splits option.splits)

lemma returned_stays_run:
  "calls g c = Returned storage p \<Longrightarrow> calls (gleaner_run evs g) c = Returned storage p"
  unfolding gleaner_run_def
  by (induction evs arbitrary: g) (simp_all add: returned_stays_step)

lemma registered_stays_step:
  "partitioners g storage = Some p \<Longrightarrow> partitioners (gleaner_step ev g) storage = Some p"
  by (cases ev) (auto simp: gleaner_step_def split: call_point.splits option.splits)

lemma registered_stays_run:
  "partitioners g storage = Some p \<Longrightarrow> partitioners (gleaner_run evs g) storage = Some p"
  unfolding gleaner_run_def
  by (induction evs arbitrary: g) (simp_all add: registered_stays_step)

lemma call_alone_returns:
  assumes at: "calls g c = BeforeFirstLookup storage"
    and fresh: "fresh \<noteq> 0" "fresh \<notin> live_partitioners g"
  shows "\<exists>p. calls (gleaner_run [Step c fresh, Step c fresh, Step c fresh] g) c
              = Returned storage p"
proof (cases "partitioners g storage")
  case (Some p)
  have "calls (gleaner_step (Step c fresh) g) c = Returned storage p"
    by (simp add: step_first_hit [OF at Some])
  from returned_stays_run [OF this, of "[Step c fresh, Step c fresh]"]
  show ?thesis by (auto simp: gleaner_run_def)
next
  case None
  let ?g1 = "gleaner_step (Step c fresh) g"
  let ?g2 = "gleaner_step (Step c fresh) ?g1"
  have g1: "?g1 = g\<lparr>calls := (calls g)(c := BeforeCreate storage)\<rparr>"
    by (simp add: step_first_miss [OF at None])
  then have a1: "calls ?g1 c = BeforeCreate storage" by simp
  have g2: "?g2 = ?g1\<lparr>live_partitioners := insert fresh (live_partitioners ?g1),
                       calls := (calls ?g1)(c := BeforeSecondLookup storage fresh)\<rparr>"
  proof -
    have "live_partitioners ?g1 = live_partitioners g" by (simp add: g1)
    with fresh show ?thesis using step_create [OF a1, of fresh] by simp
  qed
  then have a2: "calls ?g2 c = BeforeSecondLookup storage fresh" by simp
  have "partitioners ?g1 storage = None" using None by (simp add: g1)
  then have "partitioners ?g2 storage = None" by (simp add: g2)
  from step_second_won [OF a2 this, of fresh]
  have "calls (gleaner_step (Step c fresh) ?g2) c = Returned storage fresh" by simp
  then show ?thesis by (auto simp: gleaner_run_def)
qed



section \<open>The MCS blocks of the write set through locking and applying\<close>

lemma blocks_clear_Nil [simp]: "blocks_clear []"
  by (simp add: blocks_clear_def)

lemma blocks_clear_Cons [simp]: "blocks_clear (w # ws) \<longleftrightarrow> mcs_block w = 0 \<and> blocks_clear ws"
  by (auto simp: blocks_clear_def)

lemma blocks_clear_at_last_only: "blocks_clear ws \<Longrightarrow> blocks_at_last_only ws"
  by (simp add: blocks_clear_def blocks_at_last_only_def)

lemma unlock_blocks_clear_aux:
  "precommit_xct_unlock m ws = (m', ws') \<Longrightarrow> blocks_clear ws'"
  by (induction ws arbitrary: m m' ws') (auto split: prod.splits if_splits)

lemma unlock_blocks_clear: "blocks_clear (snd (precommit_xct_unlock m ws))"
  using unlock_blocks_clear_aux [of m ws] by (cases "precommit_xct_unlock m ws") auto

lemma track_moved_pass_blocks_clear:
  "blocks_clear ws \<Longrightarrow> blocks_clear (snd (track_moved_pass ext m ws))"
  by (induction ws) (auto split: prod.splits option.splits)

lemma blocks_clear_sort [simp]: "blocks_clear (sort_write_set ws) = blocks_clear ws"
  by (simp add: blocks_clear_def)

lemma owner_id_address_set_block:
  "k < length ws \<Longrightarrow>
   owner_id_address (ws[i := (ws ! i)\<lparr>mcs_block := b\<rparr>] ! k) = owner_id_address (ws ! k)"
  by (cases "k = i") simp_all

lemma same_record_follows_set_block:
  "same_record_follows (length ws) (ws[i := (ws ! i)\<lparr>mcs_block := b\<rparr>]) j =
   same_record_follows (length ws) ws j"
  by (cases "j < length ws - 1") (simp_all add: same_record_follows_def owner_id_address_set_block)

lemma blocks_at_last_only_set_block:
  assumes "blocks_at_last_only ws" "\<not> same_record_follows (length ws) ws i"
  shows "blocks_at_last_only (ws[i := (ws ! i)\<lparr>mcs_block := b\<rparr>])"
  unfolding blocks_at_last_only_def
proof (intro allI impI)
  fix j
  assume j: "j < length (ws[i := (ws ! i)\<lparr>mcs_block := b\<rparr>])"
    and f: "same_record_follows (length (ws[i := (ws ! i)\<lparr>mcs_block := b\<rparr>]))
              (ws[i := (ws ! i)\<lparr>mcs_block := b\<rparr>]) j"
  from f have f': "same_record_follows (length ws) ws j"
    by (simp add: same_record_follows_set_block)
  with assms(2) have "j \<noteq> i" by auto
  with assms(1) f' j show "mcs_block (ws[i := (ws ! i)\<lparr>mcs_block := b\<rparr>] ! j) = 0"
    by (simp add: blocks_at_last_only_def)
qed

lemma lock_loop_blocks:
  "n = length ws \<Longrightarrow> blocks_at_last_only ws \<Longrightarrow>
   lock_loop n i (m, ws, cur, mx) = (retry, (m', ws', cur', mx')) \<Longrightarrow>
   (if retry then blocks_clear ws' else blocks_at_last_only ws')"
proof (induction n i "(m, ws, cur, mx)" arbitrary: m ws cur mx rule: lock_loop.induct)
  case (1 n i m ws cur mx)
  show ?case
  proof (cases "i < n")
    case False
    with 1(3,4,5) show ?thesis by simp
  next
    case inb: True
    show ?thesis
    proof (cases "same_record_follows n ws i")
      case True
      with inb 1(5) have "lock_loop n (Suc i) (m, ws, cur, mx) = (retry, (m', ws', cur', mx'))"
        by simp
      from 1(1) [OF inb True 1(3) 1(4) this] show ?thesis .
    next
      case nf: False
      obtain b m1 cur1 where acq:
        "mcs_acquire_lock m cur (owner_id_address (ws ! i)) = (b, m1, cur1)"
        by (cases "mcs_acquire_lock m cur (owner_id_address (ws ! i))") auto
      let ?ws1 = "ws[i := (ws ! i)\<lparr>mcs_block := b\<rparr>]"
      show ?thesis
      proof (cases "is_moved (owners m1 (owner_id_address (?ws1 ! i)))")
        case True
        with inb nf acq 1(5) have "ws' = snd (precommit_xct_unlock m1 ?ws1)" and retry
          by (auto simp: Let_def split: prod.splits)
        then show ?thesis by (simp add: unlock_blocks_clear)
      next
        case False
        have q: "blocks_at_last_only ?ws1"
          using blocks_at_last_only_set_block [OF 1(4)] nf 1(3) by simp
        have len: "n = length ?ws1" using 1(3) by simp
        from inb nf acq False 1(5)
        have "lock_loop n (Suc i) (m1, ?ws1, cur1,
                xct_id_store_max mx (owner_xct_id (owners m1 (owner_id_address (?ws1 ! i)))))
              = (retry, (m', ws', cur', mx'))"
          by (simp add: Let_def)
        from 1(2) [OF inb nf acq [symmetric] refl refl False len q this] show ?thesis .
      qed
    qed
  qed
qed

lemma lock_round_blocks:
  assumes "blocks_clear ws"
    and "lock_round ext (m, ws, cur, mx) = (tracked, retry, (m', ws', cur', mx'))"
  shows "if tracked \<and> \<not> retry then blocks_at_last_only ws' else blocks_clear ws'"
proof (cases "track_moved_pass ext m ws")
  case (Pair ok ws1)
  have c1: "blocks_clear ws1"
    using track_moved_pass_blocks_clear [OF assms(1), of ext m] Pair by simp
  show ?thesis
  proof (cases ok)
    case False
    with Pair assms(2) c1 show ?thesis by (auto simp: lock_round_def)
  next
    case True
    with Pair assms(2)
    have tr: tracked and
      ll: "lock_loop (length ws1) 0 (m, sort_write_set ws1, cur, mx) = (retry, (m', ws', cur', mx'))"
      by (auto simp: lock_round_def split: prod.splits)
    have "blocks_at_last_only (sort_write_set ws1)"
      using c1 by (simp add: blocks_clear_at_last_only)
    from lock_loop_blocks [OF _ this ll] tr show ?thesis by simp
  qed
qed


lemma precommit_xct_lock_blocks:
  assumes "precommit_xct_lock ext s = Some r"
  shows "blocks_clear (fst (snd s)) \<longrightarrow>
         (if fst r then blocks_at_last_only (fst (snd (snd r)))
          else blocks_clear (fst (snd (snd r))))"
proof (rule precommit_xct_lock.raw_induct
    [where P = "\<lambda>ext s r. blocks_clear (fst (snd s)) \<longrightarrow>
         (if fst r then blocks_at_last_only (fst (snd (snd r)))
          else blocks_clear (fst (snd (snd r))))", OF _ assms], goal_cases)
  case (1 lock ext s r)
  obtain m ws cur mx where s: "s = (m, ws, cur, mx)" by (cases s) auto
  obtain tracked retry m' ws' cur' mx'
    where lr: "lock_round ext (m, ws, cur, mx) = (tracked, retry, (m', ws', cur', mx'))"
    by (cases "lock_round ext (m, ws, cur, mx)") auto
  show ?case
  proof
    assume "blocks_clear (fst (snd s))"
    with s have bc: "blocks_clear ws" by simp
    note rb = lock_round_blocks [OF bc lr]
    show "if fst r then blocks_at_last_only (fst (snd (snd r)))
          else blocks_clear (fst (snd (snd r)))"
    proof (cases tracked)
      case False
      with 1(2) s lr rb show ?thesis by (auto simp: Let_def)
    next
      case tr: True
      show ?thesis
      proof (cases retry)
        case True
        with tr 1(2) s lr have "lock ext (m', ws', cur', mx') = Some r"
          by (simp add: Let_def)
        from 1(1) [OF this] rb tr True show ?thesis by simp
      next
        case False
        with tr 1(2) s lr rb show ?thesis by (auto simp: Let_def)
      qed
    qed
  qed
qed

lemma length_released_upto [simp]: "length (released_upto ws k) = length ws"
  by (simp add: released_upto_def)

lemma nth_released_upto:
  "j < length ws \<Longrightarrow>
   released_upto ws k ! j =
     (if j < k \<and> \<not> same_record_follows (length ws) ws j
      then (ws ! j)\<lparr>mcs_block := 0\<rparr> else ws ! j)"
  by (simp add: released_upto_def)

lemma owner_id_address_released_upto [simp]:
  "j < length ws \<Longrightarrow> owner_id_address (released_upto ws k ! j) = owner_id_address (ws ! j)"
  by (simp add: nth_released_upto)

lemma same_record_follows_released_upto [simp]:
  "same_record_follows (length ws) (released_upto ws k) j = same_record_follows (length ws) ws j"
  by (cases "j < length ws - 1") (simp_all add: same_record_follows_def)

lemma released_upto_0 [simp]: "released_upto ws 0 = ws"
  by (rule nth_equalityI) (simp_all add: nth_released_upto)

lemma snd_apply_write:
  "snd (apply_write ext n new_xct_id i (m, ws)) =
     (if same_record_follows n ws i then ws else ws[i := (ws ! i)\<lparr>mcs_block := 0\<rparr>])"
  by (simp add: apply_write_def Let_def)

lemma apply_writes_Suc:
  "apply_writes ext n new_xct_id (Suc k) s =
     apply_write ext n new_xct_id k (apply_writes ext n new_xct_id k s)"
  by (simp add: apply_writes_def)

lemma apply_writes_0 [simp]: "apply_writes ext n new_xct_id 0 s = s"
  by (simp add: apply_writes_def)

lemma released_upto_Suc:
  assumes "k < length ws"
  shows "released_upto ws (Suc k) =
         (if same_record_follows (length ws) ws k then released_upto ws k
          else (released_upto ws k)[k := (released_upto ws k ! k)\<lparr>mcs_block := 0\<rparr>])"
proof (rule nth_equalityI)
  show "length (released_upto ws (Suc k)) =
        length (if same_record_follows (length ws) ws k then released_upto ws k
          else (released_upto ws k)[k := (released_upto ws k ! k)\<lparr>mcs_block := 0\<rparr>])"
    by simp
next
  fix j assume "j < length (released_upto ws (Suc k))"
  then have j: "j < length ws" by simp
  show "released_upto ws (Suc k) ! j =
        (if same_record_follows (length ws) ws k then released_upto ws k
          else (released_upto ws k)[k := (released_upto ws k ! k)\<lparr>mcs_block := 0\<rparr>]) ! j"
    using j assms
    by (cases "j = k") (auto simp: nth_released_upto less_Suc_eq)
qed

lemma snd_apply_writes:
  "k \<le> length ws \<Longrightarrow>
   snd (apply_writes ext (length ws) new_xct_id k (m, ws)) = released_upto ws k"
proof (induction k)
  case 0
  then show ?case by simp
next
  case (Suc k)
  obtain mk wsk where st: "apply_writes ext (length ws) new_xct_id k (m, ws) = (mk, wsk)"
    by (cases "apply_writes ext (length ws) new_xct_id k (m, ws)") auto
  with Suc have wsk: "wsk = released_upto ws k" by simp
  show ?case
    using Suc.prems
    by (simp add: apply_writes_Suc st snd_apply_write wsk released_upto_Suc)
qed

lemma released_upto_blocks_clear:
  "blocks_at_last_only ws \<Longrightarrow> blocks_clear (released_upto ws (length ws))"
  unfolding blocks_clear_def blocks_at_last_only_def
  by (auto simp: in_set_conv_nth nth_released_upto)

lemma write_set_verify_readwrite [simp]:
  "write_set (current_xct (fst (snd (precommit_xct_verify_readwrite ext c x)))) =
   write_set (current_xct c)"
  by (simp add: precommit_xct_verify_readwrite_def Let_def split: prod.splits)

lemma write_set_verify_readonly [simp]:
  "write_set (current_xct (fst (snd (precommit_xct_verify_readonly ext c e)))) =
   write_set (current_xct c)"
  by (simp add: precommit_xct_verify_readonly_def Let_def split: prod.splits)

lemma write_set_enter_commit:
  "write_set (current_xct (enter_commit c)) = write_set (current_xct c)"
  by (simp add: enter_commit_def)

lemma write_set_precommit_xct_apply:
  "write_set (current_xct (precommit_xct_apply ext c x e)) =
   released_upto (write_set (current_xct c)) (length (write_set (current_xct c)))"
proof -
  let ?ws = "write_set (current_xct c)"
  obtain m ws' where r:
    "apply_writes ext (length ?ws)
       (clear_status_bits (xct_own_id (issue_next_id x e (current_xct c))))
       (length ?ws) (shared c, ?ws) = (m, ws')"
    by (cases "apply_writes ext (length ?ws)
       (clear_status_bits (xct_own_id (issue_next_id x e (current_xct c))))
       (length ?ws) (shared c, ?ws)") auto
  with snd_apply_writes [of "length ?ws" ?ws ext
      "clear_status_bits (xct_own_id (issue_next_id x e (current_xct c)))" "shared c"]
  have "ws' = released_upto ?ws (length ?ws)" by simp
  with r show ?thesis
    by (simp add: precommit_xct_apply_def issue_next_id_def Let_def)
qed

lemma readwrite_blocks_clear:
  assumes "blocks_clear (write_set (current_xct c))"
    and "precommit_xct_readwrite ext c e0 = Some (ok, c', e)"
  shows "blocks_clear (write_set (current_xct c'))"
proof -
  from assms(2) obtain locked s where lk: "precommit_xct_lock ext (lock_input ext c) = Some (locked, s)"
    by (auto simp: precommit_xct_readwrite_def split: option.splits)
  obtain m ws cur mx where s: "s = (m, ws, cur, mx)" by (cases s) auto
  from precommit_xct_lock_blocks [OF lk] assms(1) s
  have post: "if locked then blocks_at_last_only ws else blocks_clear ws"
    by (simp add: lock_input_def split: if_splits)
  have ws1: "write_set (current_xct (store_lock_state c s)) = ws"
    by (simp add: store_lock_state_def s)
  show ?thesis
  proof (cases locked)
    case False
    with assms(2) lk post ws1 show ?thesis
      by (auto simp: precommit_xct_readwrite_def Let_def)
  next
    case True
    let ?c2 = "enter_commit (store_lock_state c s)"
    obtain v c3 x where ver: "precommit_xct_verify_readwrite ext ?c2 mx = (v, c3, x)"
      by (cases "precommit_xct_verify_readwrite ext ?c2 mx") auto
    have ws3: "write_set (current_xct c3) = ws"
      using write_set_verify_readwrite [of ext ?c2 mx] ver ws1
      by (simp add: write_set_enter_commit)
    show ?thesis
    proof (cases v)
      case True
      with assms(2) lk \<open>locked\<close> ver s
      have c': "c' = leave_commit ((precommit_xct_apply ext c3 x (global_epoch ?c2))
                  \<lparr>log_buffer := publish_committed_log (global_epoch ?c2)
                     (log_buffer (precommit_xct_apply ext c3 x (global_epoch ?c2)))\<rparr>)"
        by (auto simp: precommit_xct_readwrite_def Let_def)
      have "write_set (current_xct c') = released_upto ws (length ws)"
        unfolding c' using write_set_precommit_xct_apply [of ext c3 x "global_epoch ?c2"] ws3
        by (simp add: leave_commit_def)
      with post \<open>locked\<close> show ?thesis by (simp add: released_upto_blocks_clear)
    next
      case False
      with assms(2) lk \<open>locked\<close> ver s ws3
      have "write_set (current_xct c') = snd (precommit_xct_unlock (shared c3) ws)"
        by (auto simp: precommit_xct_readwrite_def Let_def leave_commit_def split: prod.splits)
      then show ?thesis by (simp add: unlock_blocks_clear)
    qed
  qed
qed


section \<open>One lock per record, taken and released at its last entry\<close>

lemma finite_acquired_from [simp]: "finite (acquired_from n ws i)"
  by (simp add: acquired_from_def)

lemma acquired_from_done: "n \<le> i \<Longrightarrow> acquired_from n ws i = {}"
  by (auto simp: acquired_from_def)

lemma acquired_from_follow:
  "same_record_follows n ws i \<Longrightarrow> acquired_from n ws i = acquired_from n ws (Suc i)"
  by (auto simp: acquired_from_def Suc_le_eq order_le_less)

lemma acquired_from_acquire:
  "i < n \<Longrightarrow> \<not> same_record_follows n ws i \<Longrightarrow>
   acquired_from n ws i = insert i (acquired_from n ws (Suc i))"
  by (auto simp: acquired_from_def Suc_le_eq order_le_less)

lemma not_in_acquired_from_Suc [simp]: "i \<notin> acquired_from n ws (Suc i)"
  by (simp add: acquired_from_def)

lemma acquired_from_set_block [simp]:
  "acquired_from (length ws) (ws[i := (ws ! i)\<lparr>mcs_block := b\<rparr>]) k = acquired_from (length ws) ws k"
  by (simp add: acquired_from_def same_record_follows_set_block)

lemma lock_loop_done: "\<not> i < n \<Longrightarrow> lock_loop n i (m, ws, cur, mx) = (False, (m, ws, cur, mx))"
  by simp

lemma lock_loop_follow:
  "i < n \<Longrightarrow> same_record_follows n ws i \<Longrightarrow>
   lock_loop n i (m, ws, cur, mx) = lock_loop n (Suc i) (m, ws, cur, mx)"
  by simp

lemma is_moved_set_owner_lock [simp]:
  "is_moved (owners (set_owner_lock m a b) x) = is_moved (owners m x)"
  by (simp add: set_owner_lock_def is_moved_def)

lemma owner_xct_id_set_owner_lock [simp]:
  "owner_xct_id (owners (set_owner_lock m a b) x) = owner_xct_id (owners m x)"
  by (simp add: set_owner_lock_def)

lemma owner_lock_set_owner_lock [simp]:
  "owner_lock (owners (set_owner_lock m a b) x) = (if x = a then b else owner_lock (owners m x))"
  by (simp add: set_owner_lock_def)

lemma owners_set_owner_lock_other:
  "x \<noteq> a \<Longrightarrow> owners (set_owner_lock m a b) x = owners m x"
  by (simp add: set_owner_lock_def)

lemma lock_loop_acquire:
  assumes "i < n" "n = length ws" "\<not> same_record_follows n ws i"
    and "\<not> is_moved (owners m (owner_id_address (ws ! i)))"
  shows "lock_loop n i (m, ws, cur, mx) =
         lock_loop n (Suc i)
           (set_owner_lock m (owner_id_address (ws ! i)) (Suc cur),
            ws[i := (ws ! i)\<lparr>mcs_block := Suc cur\<rparr>], Suc cur,
            xct_id_store_max mx (owner_xct_id (owners m (owner_id_address (ws ! i)))))"
  using assms by (simp add: mcs_acquire_lock_def Let_def)

declare lock_loop.simps [simp del]

lemma sorted_not_follows_last:
  assumes "sorted (map owner_id_address ws)" "n = length ws" "i < n"
    "\<not> same_record_follows n ws i" "i < k" "k < n"
  shows "owner_id_address (ws ! i) < owner_id_address (ws ! k)"
proof -
  from assms have si: "Suc i < n" by simp
  with assms(4) have ne: "owner_id_address (ws ! i) \<noteq> owner_id_address (ws ! Suc i)"
    by (auto simp: same_record_follows_def)
  have "owner_id_address (ws ! i) \<le> owner_id_address (ws ! Suc i)"
    using assms(1,2) si by (simp add: sorted_iff_nth_mono)
  moreover have "owner_id_address (ws ! Suc i) \<le> owner_id_address (ws ! k)"
    using assms(1,2,5,6) si
    by (metis Suc_leI length_map nth_map sorted_iff_nth_mono)
  ultimately show ?thesis using ne by simp
qed

lemma lock_loop_post:
  assumes "n = length ws" "sorted (map owner_id_address ws)"
    and "\<forall>w\<in>set ws. \<not> is_moved (owners m (owner_id_address w))"
  shows "lock_post n i (m, ws, cur, mx) (lock_loop n i (m, ws, cur, mx))"
  using assms
proof (induction "n - i" arbitrary: i m ws cur mx)
  case 0
  then have "\<not> i < n" by simp
  with 0 show ?case
    by (simp add: lock_loop_done lock_post_def acquired_from_done)
next
  case (Suc d)
  then have inb: "i < n" by simp
  have il: "i < length ws" using inb Suc.prems by simp
  show ?case
  proof (cases "same_record_follows n ws i")
    case True
    have "d = n - Suc i" using Suc.hyps(2) by simp
    from Suc.hyps(1) [OF this Suc.prems]
    have "lock_post n (Suc i) (m, ws, cur, mx) (lock_loop n (Suc i) (m, ws, cur, mx))" .
    then show ?thesis
      by (simp add: lock_loop_follow [OF inb True] lock_post_def acquired_from_follow [OF True])
  next
    case nf: False
    let ?a = "owner_id_address (ws ! i)"
    let ?m1 = "set_owner_lock m ?a (Suc cur)"
    let ?ws1 = "ws[i := (ws ! i)\<lparr>mcs_block := Suc cur\<rparr>]"
    let ?mx1 = "xct_id_store_max mx (owner_xct_id (owners m ?a))"
    let ?A = "acquired_from n ws (Suc i)"
    have nm: "\<not> is_moved (owners m ?a)" using Suc.prems(3) il by simp
    have step: "lock_loop n i (m, ws, cur, mx) = lock_loop n (Suc i) (?m1, ?ws1, Suc cur, ?mx1)"
      by (rule lock_loop_acquire [OF inb Suc.prems(1) nf nm])
    have addr1: "owner_id_address (?ws1 ! k) = owner_id_address (ws ! k)" if "k < n" for k
      using that Suc.prems(1) by (simp add: owner_id_address_set_block)
    have map1: "map owner_id_address ?ws1 = map owner_id_address ws"
      by (rule nth_equalityI) (simp_all add: owner_id_address_set_block)
    have p1: "n = length ?ws1" using Suc.prems(1) by simp
    have p2: "sorted (map owner_id_address ?ws1)" using Suc.prems(2) map1 by simp
    have p3: "\<forall>w\<in>set ?ws1. \<not> is_moved (owners ?m1 (owner_id_address w))"
    proof
      fix w assume "w \<in> set ?ws1"
      then obtain k where "k < n" "w = ?ws1 ! k"
        using p1 by (auto simp: in_set_conv_nth)
      then have "owner_id_address w = owner_id_address (ws ! k)" "ws ! k \<in> set ws"
        using addr1 Suc.prems(1) by auto
      with Suc.prems(3) show "\<not> is_moved (owners ?m1 (owner_id_address w))" by simp
    qed
    have "d = n - Suc i" using Suc.hyps(2) by simp
    from Suc.hyps(1) [OF this p1 p2 p3, of "Suc cur" ?mx1]
    have ih: "lock_post n (Suc i) (?m1, ?ws1, Suc cur, ?mx1)
                (lock_loop n (Suc i) (?m1, ?ws1, Suc cur, ?mx1))" .
    obtain retry m' ws' cur' mx' where res:
      "lock_loop n (Suc i) (?m1, ?ws1, Suc cur, ?mx1) = (retry, m', ws', cur', mx')"
      by (cases "lock_loop n (Suc i) (?m1, ?ws1, Suc cur, ?mx1)") auto
    have A1: "acquired_from n ?ws1 (Suc i) = ?A"
      using Suc.prems(1) by simp
    have Ai: "acquired_from n ws i = insert i ?A"
      by (rule acquired_from_acquire [OF inb nf])
    from ih res A1 have
      h1: "\<not> retry" and h2: "length ws' = n" and
      h3: "\<forall>j<n. ws' ! j = (if j \<in> ?A then (?ws1 ! j)\<lparr>mcs_block := mcs_block (ws' ! j)\<rparr>
                                else ?ws1 ! j)" and
      h4: "\<forall>j\<in>?A. Suc cur < mcs_block (ws' ! j) \<and>
                  owner_lock (owners m' (owner_id_address (?ws1 ! j))) = mcs_block (ws' ! j)" and
      h5: "cur' = Suc cur + card ?A" and
      h6: "\<forall>a. a \<notin> (\<lambda>j. owner_id_address (?ws1 ! j)) ` ?A \<longrightarrow> owners m' a = owners ?m1 a" and
      h7: "\<forall>a. owner_xct_id (owners m' a) = owner_xct_id (owners ?m1 a)"
      by (simp_all add: lock_post_def)
    have Alt: "j \<in> ?A \<Longrightarrow> i < j \<and> j < n" for j by (auto simp: acquired_from_def)
    have img: "(\<lambda>j. owner_id_address (?ws1 ! j)) ` ?A = (\<lambda>j. owner_id_address (ws ! j)) ` ?A"
      using addr1 Alt by (auto simp: image_iff)
    have a_notin: "?a \<notin> (\<lambda>j. owner_id_address (ws ! j)) ` ?A"
    proof
      assume "?a \<in> (\<lambda>j. owner_id_address (ws ! j)) ` ?A"
      then obtain j where j: "j \<in> ?A" "?a = owner_id_address (ws ! j)" by auto
      with Alt have "i < j" "j < n" by auto
      from sorted_not_follows_last [OF Suc.prems(2) Suc.prems(1) inb nf this] j(2)
      show False by simp
    qed
    have wsi: "ws' ! i = (ws ! i)\<lparr>mcs_block := Suc cur\<rparr>"
    proof -
      from h3 inb have "ws' ! i = (if i \<in> ?A then (?ws1 ! i)\<lparr>mcs_block := mcs_block (ws' ! i)\<rparr>
                                else ?ws1 ! i)" by blast
      then show ?thesis using il by simp
    qed
    have c3: "\<forall>j<n. ws' ! j = (if j \<in> insert i ?A
                 then (ws ! j)\<lparr>mcs_block := mcs_block (ws' ! j)\<rparr> else ws ! j)"
    proof (intro allI impI)
      fix j assume j: "j < n"
      show "ws' ! j = (if j \<in> insert i ?A
                 then (ws ! j)\<lparr>mcs_block := mcs_block (ws' ! j)\<rparr> else ws ! j)"
      proof (cases "j = i")
        case True
        then show ?thesis using wsi by simp
      next
        case False
        then have same: "?ws1 ! j = ws ! j" by simp
        from h3 j have "ws' ! j = (if j \<in> ?A then (?ws1 ! j)\<lparr>mcs_block := mcs_block (ws' ! j)\<rparr>
                                else ?ws1 ! j)" by blast
        with same False show ?thesis by (auto split: if_splits)
      qed
    qed
    have lock_i: "owner_lock (owners m' ?a) = Suc cur"
      using h6 a_notin img by simp
    have c4: "\<forall>j\<in>insert i ?A. cur < mcs_block (ws' ! j) \<and>
                owner_lock (owners m' (owner_id_address (ws ! j))) = mcs_block (ws' ! j)"
    proof
      fix j assume "j \<in> insert i ?A"
      then consider "j = i" | "j \<in> ?A" by auto
      then show "cur < mcs_block (ws' ! j) \<and>
                owner_lock (owners m' (owner_id_address (ws ! j))) = mcs_block (ws' ! j)"
      proof cases
        case 1
        then show ?thesis using wsi lock_i by simp
      next
        case 2
        with h4 addr1 Alt show ?thesis by fastforce
      qed
    qed
    have c5: "cur' = cur + card (insert i ?A)"
      using h5 by simp
    have c6: "\<forall>a. a \<notin> (\<lambda>j. owner_id_address (ws ! j)) ` insert i ?A \<longrightarrow> owners m' a = owners m a"
    proof (intro allI impI)
      fix a assume "a \<notin> (\<lambda>j. owner_id_address (ws ! j)) ` insert i ?A"
      then have "a \<noteq> ?a" "a \<notin> (\<lambda>j. owner_id_address (?ws1 ! j)) ` ?A"
        using img by auto
      with h6 show "owners m' a = owners m a"
        by (simp add: owners_set_owner_lock_other)
    qed
    have c7: "\<forall>a. owner_xct_id (owners m' a) = owner_xct_id (owners m a)"
      using h7 by simp
    show ?thesis
      unfolding step res lock_post_def prod.case Ai
      by (intro conjI h1 h2 c3 c4 c5 c6 c7)
  qed
qed


lemma sorted_last_iff:
  assumes "sorted (map owner_id_address ws)" "n = length ws" "j < n"
  shows "\<not> same_record_follows n ws j \<longleftrightarrow>
         (\<forall>k. j < k \<and> k < n \<longrightarrow> owner_id_address (ws ! k) \<noteq> owner_id_address (ws ! j))"
proof
  assume nf: "\<not> same_record_follows n ws j"
  show "\<forall>k. j < k \<and> k < n \<longrightarrow> owner_id_address (ws ! k) \<noteq> owner_id_address (ws ! j)"
  proof (intro allI impI)
    fix k assume "j < k \<and> k < n"
    then have "j < k" "k < n" by auto
    from sorted_not_follows_last [OF assms nf this]
    show "owner_id_address (ws ! k) \<noteq> owner_id_address (ws ! j)" by simp
  qed
next
  assume last: "\<forall>k. j < k \<and> k < n \<longrightarrow> owner_id_address (ws ! k) \<noteq> owner_id_address (ws ! j)"
  show "\<not> same_record_follows n ws j"
  proof
    assume f: "same_record_follows n ws j"
    then have "Suc j < n" "owner_id_address (ws ! j) = owner_id_address (ws ! Suc j)"
      by (auto simp: same_record_follows_def)
    with last show False by (metis lessI)
  qed
qed

lemma exists_last:
  "j < n \<Longrightarrow>
   \<exists>k. j \<le> k \<and> k < n \<and> owner_id_address (ws ! k) = owner_id_address (ws ! j) \<and>
       \<not> same_record_follows n ws k"
proof (induction "n - j" arbitrary: j)
  case 0
  then show ?case by simp
next
  case (Suc d)
  show ?case
  proof (cases "same_record_follows n ws j")
    case False
    with Suc.prems show ?thesis by blast
  next
    case True
    then have sj: "Suc j < n" and eq: "owner_id_address (ws ! j) = owner_id_address (ws ! Suc j)"
      by (auto simp: same_record_follows_def)
    have "d = n - Suc j" using Suc.hyps(2) by simp
    from Suc.hyps(1) [OF this sj] obtain k where
      "Suc j \<le> k" "k < n" "owner_id_address (ws ! k) = owner_id_address (ws ! Suc j)"
      "\<not> same_record_follows n ws k" by blast
    with eq show ?thesis by (metis Suc_leD)
  qed
qed

lemma card_acquired_from:
  assumes "sorted (map owner_id_address ws)" "n = length ws"
  shows "card (acquired_from n ws 0) = card (owner_id_address ` set ws)"
proof -
  let ?f = "\<lambda>j. owner_id_address (ws ! j)"
  let ?A = "acquired_from n ws 0"
  have inj: "inj_on ?f ?A"
  proof (rule inj_onI)
    fix x y assume x: "x \<in> ?A" and y: "y \<in> ?A" and eq: "?f x = ?f y"
    have xs: "x < n" "\<not> same_record_follows n ws x" and ys: "y < n" "\<not> same_record_follows n ws y"
      using x y by (auto simp: acquired_from_def)
    show "x = y"
    proof (rule ccontr)
      assume "x \<noteq> y"
      then consider "x < y" | "y < x" by linarith
      then show False
      proof cases
        case 1
        from sorted_not_follows_last [OF assms xs 1 ys(1)] eq show False by simp
      next
        case 2
        from sorted_not_follows_last [OF assms ys 2 xs(1)] eq show False by simp
      qed
    qed
  qed
  have img: "?f ` ?A = owner_id_address ` set ws"
  proof
    show "?f ` ?A \<subseteq> owner_id_address ` set ws"
      using assms(2) by (auto simp: acquired_from_def)
  next
    show "owner_id_address ` set ws \<subseteq> ?f ` ?A"
    proof
      fix a assume "a \<in> owner_id_address ` set ws"
      then obtain j where j: "j < n" "a = owner_id_address (ws ! j)"
        using assms(2) by (auto simp: in_set_conv_nth)
      from exists_last [OF j(1), of ws] obtain k where
        "k < n" "owner_id_address (ws ! k) = owner_id_address (ws ! j)"
        "\<not> same_record_follows n ws k" by blast
      then have "k \<in> ?A" "?f k = a" using j by (auto simp: acquired_from_def)
      then show "a \<in> ?f ` ?A" by blast
    qed
  qed
  from card_image [OF inj] img show ?thesis by simp
qed

lemma track_moved_pass_unmoved:
  "\<forall>w\<in>set ws. \<not> is_moved (owners m (owner_id_address w)) \<Longrightarrow>
   track_moved_pass ext m ws = (True, ws)"
  by (induction ws) simp_all

lemma sorted_sort_write_set [simp]: "sorted (map owner_id_address (sort_write_set ws))"
  by (simp add: sort_write_set_def)

lemma precommit_xct_lock_unmoved:
  assumes "\<forall>w\<in>set ws. \<not> is_moved (owners m (owner_id_address w))"
  shows "precommit_xct_lock ext (m, ws, cur, mx) =
           Some (True, snd (lock_loop (length ws) 0 (m, sort_write_set ws, cur, mx)))"
proof -
  have tp: "track_moved_pass ext m ws = (True, ws)"
    by (rule track_moved_pass_unmoved [OF assms])
  then have settles: "tracking_settles ext m ws"
    using assms by (simp add: tracking_settles_def)
  have lr: "lock_round ext (m, ws, cur, mx) =
              (True, lock_loop (length ws) 0 (m, sort_write_set ws, cur, mx))"
    by (simp add: lock_round_def tp split: prod.splits)
  show ?thesis
    by (simp add: precommit_xct_lock_settled [OF settles] lr)
qed

lemma owner_lock_apply_write:
  "owner_lock (owners (fst (apply_write ext n new_xct_id i (m, ws))) a) =
     (if a = owner_id_address (ws ! i) \<and> \<not> same_record_follows n ws i then 0
      else owner_lock (owners m a))"
  by (simp add: apply_write_def Let_def set_owner_xct_id_def set_log_xct_id_def
      mcs_release_lock_def set_owner_lock_def)

lemma owner_xct_id_apply_write_last:
  "\<not> same_record_follows n ws i \<Longrightarrow>
   owner_xct_id (owners (fst (apply_write ext n new_xct_id i (m, ws))) (owner_id_address (ws ! i)))
     \<in> {new_xct_id, set_deleted new_xct_id}"
  by (simp add: apply_write_def Let_def set_owner_xct_id_def set_log_xct_id_def
      mcs_release_lock_def set_owner_lock_def)

lemma owner_lock_apply_writes:
  "k \<le> length ws \<Longrightarrow>
   owner_lock (owners (fst (apply_writes ext (length ws) new_xct_id k (m, ws))) a) =
     (if \<exists>j<k. \<not> same_record_follows (length ws) ws j \<and> owner_id_address (ws ! j) = a
      then 0 else owner_lock (owners m a))"
proof (induction k)
  case 0
  then show ?case by simp
next
  case (Suc k)
  obtain mk wsk where st: "apply_writes ext (length ws) new_xct_id k (m, ws) = (mk, wsk)"
    by (cases "apply_writes ext (length ws) new_xct_id k (m, ws)") auto
  have wsk: "wsk = released_upto ws k"
    using snd_apply_writes [of k ws ext new_xct_id m] Suc.prems st by simp
  have k: "k < length ws" using Suc.prems by simp
  have ih: "owner_lock (owners mk a) =
     (if \<exists>j<k. \<not> same_record_follows (length ws) ws j \<and> owner_id_address (ws ! j) = a
      then 0 else owner_lock (owners m a))"
    using Suc.IH st k by simp
  show ?case
    unfolding apply_writes_Suc st owner_lock_apply_write ih wsk
    using k by (auto simp: less_Suc_eq)
qed


lemma same_record_follows_cong_addr:
  assumes "map owner_id_address ws' = map owner_id_address ws" "n = length ws"
  shows "same_record_follows n ws' j = same_record_follows n ws j"
proof (cases "j < n - 1")
  case False
  then show ?thesis by (simp add: same_record_follows_def)
next
  case True
  have len: "length ws' = length ws" using assms(1) by (metis length_map)
  have "owner_id_address (ws' ! k) = owner_id_address (ws ! k)" if "k < n" for k
    using assms that len by (metis nth_map)
  with True show ?thesis by (simp add: same_record_follows_def)
qed

lemma apply_step_locks:
  assumes srt: "sorted (map owner_id_address ws1)" and n: "n = length ws1" and k: "k < n"
    and held: "\<forall>j<n. owner_lock (owners m1 (owner_id_address (ws1 ! j))) \<noteq> 0"
  shows "let a = owner_id_address (ws1 ! k);
             before = apply_writes ext n new_xct_id k (m1, ws1);
             after = apply_writes ext n new_xct_id (Suc k) (m1, ws1)
         in owner_lock (owners (fst before) a) \<noteq> 0 \<and>
            (if \<forall>j. k < j \<and> j < n \<longrightarrow> owner_id_address (ws1 ! j) \<noteq> a
             then owner_lock (owners (fst after) a) = 0 \<and>
                  owner_xct_id (owners (fst after) a) \<in> {new_xct_id, set_deleted new_xct_id} \<and>
                  mcs_block (snd after ! k) = 0
             else owner_lock (owners (fst after) a) = owner_lock (owners (fst before) a) \<and>
                  snd after = snd before)"
proof -
  let ?a = "owner_id_address (ws1 ! k)"
  obtain mk wsk where st: "apply_writes ext n new_xct_id k (m1, ws1) = (mk, wsk)"
    by (cases "apply_writes ext n new_xct_id k (m1, ws1)") auto
  have wsk: "wsk = released_upto ws1 k"
    using snd_apply_writes [of k ws1 ext new_xct_id m1] k n st by simp
  have ak: "owner_id_address (wsk ! k) = ?a" using wsk k n by simp
  have fk: "same_record_follows n wsk k = same_record_follows n ws1 k"
    using wsk n by simp
  have last: "\<not> same_record_follows n ws1 k \<longleftrightarrow>
              (\<forall>j. k < j \<and> j < n \<longrightarrow> owner_id_address (ws1 ! j) \<noteq> ?a)"
    by (rule sorted_last_iff [OF srt n k])
  have no_earlier: "\<not> (\<exists>j<k. \<not> same_record_follows (length ws1) ws1 j \<and>
                        owner_id_address (ws1 ! j) = ?a)"
  proof
    assume "\<exists>j<k. \<not> same_record_follows (length ws1) ws1 j \<and> owner_id_address (ws1 ! j) = ?a"
    then obtain j where j: "j < k" "\<not> same_record_follows n ws1 j"
      "owner_id_address (ws1 ! j) = ?a" using n by auto
    from j(1) k have "j < n" by simp
    from sorted_not_follows_last [OF srt n this j(2) j(1) k] j(3) show False by simp
  qed
  have before: "owner_lock (owners mk ?a) = owner_lock (owners m1 ?a)"
    using owner_lock_apply_writes [of k ws1 ext new_xct_id m1 ?a] k n st no_earlier by simp
  have b0: "owner_lock (owners mk ?a) \<noteq> 0" using before held k by simp
  have after: "apply_writes ext n new_xct_id (Suc k) (m1, ws1) =
                 apply_write ext n new_xct_id k (mk, wsk)"
    by (simp add: apply_writes_Suc st)
  have l_after: "owner_lock (owners (fst (apply_write ext n new_xct_id k (mk, wsk))) ?a) =
                  (if \<not> same_record_follows n ws1 k then 0 else owner_lock (owners mk ?a))"
    by (simp add: owner_lock_apply_write ak fk)
  have x_after: "\<not> same_record_follows n ws1 k \<Longrightarrow>
      owner_xct_id (owners (fst (apply_write ext n new_xct_id k (mk, wsk))) ?a)
        \<in> {new_xct_id, set_deleted new_xct_id}"
    using owner_xct_id_apply_write_last [of n wsk k ext new_xct_id mk] fk ak by simp
  have w_after: "snd (apply_write ext n new_xct_id k (mk, wsk)) =
                   (if same_record_follows n ws1 k then wsk
                    else wsk[k := (wsk ! k)\<lparr>mcs_block := 0\<rparr>])"
    by (simp add: snd_apply_write fk)
  have kl: "k < length wsk" using wsk k n by simp
  show ?thesis
    unfolding Let_def after st fst_conv snd_conv
    using b0 l_after x_after w_after kl last by (cases "same_record_follows n ws1 k") simp_all
qed



section \<open>The transaction id issued at commit\<close>

lemma log_entry_released_upto [simp]:
  "j < length ws \<Longrightarrow> log_entry (released_upto ws k ! j) = log_entry (ws ! j)"
  by (simp add: nth_released_upto)

lemma log_headers_apply_write:
  "log_headers (fst (apply_write ext n new_xct_id i (m, ws))) =
     (log_headers m)(log_entry (ws ! i) := new_xct_id)"
  by (simp add: apply_write_def Let_def set_owner_xct_id_def set_log_xct_id_def
      mcs_release_lock_def set_owner_lock_def)

lemma owners_apply_write_other:
  "a \<noteq> owner_id_address (ws ! i) \<Longrightarrow>
   owners (fst (apply_write ext n new_xct_id i (m, ws))) a = owners m a"
  by (simp add: apply_write_def Let_def set_owner_xct_id_def set_log_xct_id_def
      mcs_release_lock_def set_owner_lock_def)

lemma log_headers_apply_writes:
  "k \<le> length ws \<Longrightarrow>
   log_headers (fst (apply_writes ext (length ws) new_xct_id k (m, ws))) l =
     (if \<exists>j<k. log_entry (ws ! j) = l then new_xct_id else log_headers m l)"
proof (induction k)
  case 0
  then show ?case by simp
next
  case (Suc k)
  obtain mk wsk where st: "apply_writes ext (length ws) new_xct_id k (m, ws) = (mk, wsk)"
    by (cases "apply_writes ext (length ws) new_xct_id k (m, ws)") auto
  have wsk: "wsk = released_upto ws k"
    using snd_apply_writes [of k ws ext new_xct_id m] Suc.prems st by simp
  have k: "k < length ws" using Suc.prems by simp
  have ih: "log_headers mk l =
     (if \<exists>j<k. log_entry (ws ! j) = l then new_xct_id else log_headers m l)"
    using Suc.IH st k by simp
  show ?case
    unfolding apply_writes_Suc st log_headers_apply_write wsk
    using k ih by (auto simp: less_Suc_eq)
qed

lemma log_headers_apply_lock_free_writes:
  "log_headers (apply_lock_free_writes ext new_xct_id lf m) l =
     (if l \<in> lf_log_entry ` set lf then new_xct_id else log_headers m l)"
  by (induction lf arbitrary: m) (auto simp: Let_def set_log_xct_id_def)

lemma owners_apply_lock_free_writes [simp]:
  "owners (apply_lock_free_writes ext new_xct_id lf m) = owners m"
  by (induction lf arbitrary: m) (auto simp: Let_def set_log_xct_id_def)

lemma owner_xct_id_apply_writes:
  "k \<le> length ws \<Longrightarrow> j < k \<Longrightarrow>
   owner_xct_id (owners (fst (apply_writes ext (length ws) new_xct_id k (m, ws)))
                   (owner_id_address (ws ! j)))
     \<in> {new_xct_id, set_deleted new_xct_id} \<or>
   (\<exists>j'. k \<le> j' \<and> j' < length ws \<and> owner_id_address (ws ! j') = owner_id_address (ws ! j))"
proof (induction k)
  case 0
  then show ?case by simp
next
  case (Suc k)
  let ?n = "length ws"
  obtain mk wsk where st: "apply_writes ext ?n new_xct_id k (m, ws) = (mk, wsk)"
    by (cases "apply_writes ext ?n new_xct_id k (m, ws)") auto
  have wsk: "wsk = released_upto ws k"
    using snd_apply_writes [of k ws ext new_xct_id m] Suc.prems st by simp
  have k: "k < ?n" using Suc.prems by simp
  have ak: "owner_id_address (wsk ! k) = owner_id_address (ws ! k)" using wsk k by simp
  have fk: "same_record_follows ?n wsk k = same_record_follows ?n ws k" using wsk by simp
  let ?m' = "fst (apply_write ext ?n new_xct_id k (mk, wsk))"
  have step: "fst (apply_writes ext ?n new_xct_id (Suc k) (m, ws)) = ?m'"
    by (simp add: apply_writes_Suc st)
  have here: "owner_xct_id (owners ?m' (owner_id_address (ws ! k)))
                \<in> {new_xct_id, set_deleted new_xct_id} \<or>
              (\<exists>j'. Suc k \<le> j' \<and> j' < ?n \<and>
                    owner_id_address (ws ! j') = owner_id_address (ws ! k))"
  proof (cases "same_record_follows ?n ws k")
    case False
    with owner_xct_id_apply_write_last [of ?n wsk k ext new_xct_id mk] fk ak
    show ?thesis by simp
  next
    case True
    then have "Suc k < ?n" "owner_id_address (ws ! Suc k) = owner_id_address (ws ! k)"
      by (auto simp: same_record_follows_def)
    then show ?thesis by blast
  qed
  show ?case
  proof (cases "owner_id_address (ws ! j) = owner_id_address (ws ! k)")
    case True
    with here step show ?thesis by simp
  next
    case False
    then have jk: "j < k" using Suc.prems(2) by (metis less_Suc_eq)
    have same: "owners ?m' (owner_id_address (ws ! j)) = owners mk (owner_id_address (ws ! j))"
      using owners_apply_write_other [of "owner_id_address (ws ! j)" wsk k] False ak by simp
    from Suc.IH [OF _ jk] k st
    consider "owner_xct_id (owners mk (owner_id_address (ws ! j)))
                \<in> {new_xct_id, set_deleted new_xct_id}"
      | j' where "k \<le> j'" "j' < ?n" "owner_id_address (ws ! j') = owner_id_address (ws ! j)"
      by auto
    then show ?thesis
    proof cases
      case 1
      with same step show ?thesis by simp
    next
      case 2
      with False have "j' \<noteq> k" by auto
      with 2 have "Suc k \<le> j'" by simp
      with 2 show ?thesis by blast
    qed
  qed
qed



section \<open>No MCS block and no key lock is left behind\<close>

lemma shared_leave_commit [simp]: "shared (leave_commit c) = shared c"
  by (simp add: leave_commit_def)

lemma write_set_leave_commit [simp]:
  "write_set (current_xct (leave_commit c)) = write_set (current_xct c)"
  by (simp add: leave_commit_def)

lemma precommit_xct_apply_releases_locks:
  assumes "w \<in> set (write_set (current_xct (precommit_xct_apply ext c x e)))"
  shows "owner_lock (owners (shared (precommit_xct_apply ext c x e)) (owner_id_address w)) = 0"
proof -
  let ?ws = "write_set (current_xct c)"
  let ?n = "length ?ws"
  let ?new = "clear_status_bits (xct_own_id (issue_next_id x e (current_xct c)))"
  obtain m ws' where ap: "apply_writes ext ?n ?new ?n (shared c, ?ws) = (m, ws')"
    by (cases "apply_writes ext ?n ?new ?n (shared c, ?ws)") auto
  have sh: "owners (shared (precommit_xct_apply ext c x e)) = owners m"
    using ap by (simp add: precommit_xct_apply_def issue_next_id_def Let_def)
  from assms obtain j where j: "j < ?n" "w = released_upto ?ws ?n ! j"
    by (auto simp: write_set_precommit_xct_apply in_set_conv_nth)
  then have a: "owner_id_address w = owner_id_address (?ws ! j)" by simp
  from exists_last [OF j(1), of ?ws] obtain k where
    k: "k < ?n" "owner_id_address (?ws ! k) = owner_id_address (?ws ! j)"
       "\<not> same_record_follows ?n ?ws k" by blast
  have "owner_lock (owners m (owner_id_address w)) =
     (if \<exists>i<?n. \<not> same_record_follows ?n ?ws i \<and> owner_id_address (?ws ! i) = owner_id_address w
      then 0 else owner_lock (owners (shared c) (owner_id_address w)))"
    using owner_lock_apply_writes [of ?n ?ws ext ?new "shared c" "owner_id_address w"] ap
    by simp
  moreover have "\<exists>i<?n. \<not> same_record_follows ?n ?ws i \<and>
                   owner_id_address (?ws ! i) = owner_id_address w"
    using k a by auto
  ultimately show ?thesis by (simp add: sh)
qed

lemma readwrite_commit_releases_locks:
  assumes "precommit_xct_readwrite ext c e0 = Some (True, c', e)"
    and "w \<in> set (write_set (current_xct c'))"
  shows "owner_lock (owners (shared c') (owner_id_address w)) = 0"
proof -
  from assms(1) obtain locked s where lk: "precommit_xct_lock ext (lock_input ext c) = Some (locked, s)"
    by (auto simp: precommit_xct_readwrite_def split: option.splits)
  have locked: locked
    using assms(1) lk by (auto simp: precommit_xct_readwrite_def Let_def split: if_splits)
  let ?c2 = "enter_commit (store_lock_state c s)"
  obtain v c3 x where ver: "precommit_xct_verify_readwrite ext ?c2 (snd (snd (snd s))) = (v, c3, x)"
    by (cases "precommit_xct_verify_readwrite ext ?c2 (snd (snd (snd s)))") auto
  have v: v
    using assms(1) lk locked ver
    by (auto simp: precommit_xct_readwrite_def Let_def split: if_splits prod.splits)
  let ?c4 = "precommit_xct_apply ext c3 x (global_epoch ?c2)"
  have c': "c' = leave_commit (?c4\<lparr>log_buffer :=
                   publish_committed_log (global_epoch ?c2) (log_buffer ?c4)\<rparr>)"
    using assms(1) lk locked ver v by (auto simp: precommit_xct_readwrite_def Let_def)
  have "write_set (current_xct c') = write_set (current_xct ?c4)" "shared c' = shared ?c4"
    unfolding c' by simp_all
  with assms(2) precommit_xct_apply_releases_locks [of w ext c3 x "global_epoch ?c2"]
  show ?thesis by simp
qed



section \<open>Bounds on the bin bits of a hash storage\<close>

text \<open>
  Whatever bin count the floating-point expression of \<open>HashMetadata::set_capacity\<close>
  yields, the loop and the clamp give between 8 and 64 bits, and at most 63 exactly when
  the bin count is at most \<open>2^63\<close>.
\<close>

lemma bin_bits_loop_le: "bits \<le> 64 \<Longrightarrow> bin_bits_loop bin_count bits \<le> 64"
proof (induction bin_count bits rule: bin_bits_loop.induct)
  case (1 bin_count bits)
  then show ?case
    by (subst bin_bits_loop.simps) auto
qed

lemma bin_bits_of_bin_count_range:
  "8 \<le> bin_bits_of_bin_count bin_count \<and> bin_bits_of_bin_count bin_count \<le> 64"
  using bin_bits_loop_le [of 0 bin_count]
  by (simp add: bin_bits_of_bin_count_def Let_def)

lemma bin_bits_loop_small:
  "bits \<le> 63 \<Longrightarrow> bin_count \<le> 2 ^ 63 \<Longrightarrow> bin_bits_loop bin_count bits \<le> 63"
proof (induction bin_count bits rule: bin_bits_loop.induct)
  case (1 bin_count bits)
  show ?case
  proof (cases "bits < 64 \<and> 2 ^ bits < bin_count")
    case False
    with 1 show ?thesis by (subst bin_bits_loop.simps) simp
  next
    case True
    with "1.prems"(2) have "(2 :: nat) ^ bits < 2 ^ 63" by (meson less_le_trans)
    then have "bits < 63"
      by (simp only: power_strict_increasing_iff one_less_numeral_iff semiring_norm)
    with 1 True show ?thesis by (subst bin_bits_loop.simps) simp
  qed
qed

lemma bin_bits_loop_large:
  "bits \<le> 63 \<Longrightarrow> 2 ^ 63 < bin_count \<Longrightarrow> bin_bits_loop bin_count bits = 64"
proof (induction bin_count bits rule: bin_bits_loop.induct)
  case (1 bin_count bits)
  have "(2 :: nat) ^ bits \<le> 2 ^ 63"
    using "1.prems"(1) by (simp only: power_increasing_iff one_less_numeral_iff semiring_norm)
  with "1.prems"(2) have lt: "2 ^ bits < bin_count" by (meson le_less_trans)
  show ?case
  proof (cases "bits = 63")
    case True
    have "bin_bits_loop bin_count 64 = 64" by (subst bin_bits_loop.simps) simp
    with True lt show ?thesis by (subst bin_bits_loop.simps) simp
  next
    case False
    with "1.prems" have "Suc bits \<le> 63" by simp
    with 1 lt show ?thesis by (subst bin_bits_loop.simps) simp
  qed
qed

lemma bin_bits_at_most_63_iff:
  "bin_bits_of_bin_count bin_count \<le> 63 \<longleftrightarrow> bin_count \<le> 2 ^ 63"
proof (cases "bin_count \<le> 2 ^ 63")
  case True
  with bin_bits_loop_small [of 0 bin_count] show ?thesis
    by (simp add: bin_bits_of_bin_count_def Let_def)
next
  case False
  then have "2 ^ 63 < bin_count" by simp
  from bin_bits_loop_large [OF _ this, of 0] False show ?thesis
    by (simp add: bin_bits_of_bin_count_def Let_def)
qed

end
